theory Spec2Isabelle
  imports Complex_Main
begin

section \<open>JavaScript values\<close>

text \<open>
  The chain of \<^verbatim>\<open>src/markov.ts\<close> is written over \<^verbatim>\<open>any\<close>: symbols, states and
  parsed JSON are arbitrary JavaScript values. The values of this development are the
  primitives, arrays and plain objects below.

  \<^item> A number is an integer (\<open>JNum\<close>) or one of the three non-finite numbers. \<open>JNum n\<close>
    stands for a number only when \<open>n\<close> is a safe integer; wherever the text of a number
    matters, the functions below stop at any other \<open>n\<close> with \<open>Unmodelled\<close>. Fractions
    and the negative zero are not represented.
  \<^item> \<open>JBigInt\<close> is a BigInt: a primitive that \<^verbatim>\<open>JSON.stringify\<close> refuses with a
    TypeError. A cyclic object, which it refuses too, is not a value of this type, nor are
    functions, symbols and objects with accessors or a \<^verbatim>\<open>toJSON\<close> method.
  \<^item> A string is a list of 8-bit code units.
  \<^item> An object is the list of its own enumerable properties in the order
    \<^verbatim>\<open>for ... in\<close> and \<^verbatim>\<open>JSON.stringify\<close> visit them; it has no prototype chain.
\<close>

datatype nonfinite = NaN | PosInfinity | NegInfinity

datatype jsval =
    JUndefined
  | JNull
  | JBool bool
  | JNum int
  | JNonFinite nonfinite
  | JBigInt int
  | JStr string
  | JArr "jsval list"
  | JObj "(string \<times> jsval) list"

datatype js_error = Error string | TypeError | SyntaxError

text \<open>
  What a call does: it returns, it throws, or it leaves the values above (\<open>Unmodelled\<close>:
  the code goes on with a value or an operation that has no counterpart here, such as a
  \<^verbatim>\<open>stateSize\<close> field holding a string or the text of the number \<^verbatim>\<open>1e21\<close>). No theorem
  draws a conclusion from \<open>Unmodelled\<close>.
\<close>

datatype 'a outcome = Returns 'a | Throws js_error | Unmodelled

definition and_then :: "'a outcome \<Rightarrow> ('a \<Rightarrow> 'b outcome) \<Rightarrow> 'b outcome" where
  "and_then m f = (case m of Returns x \<Rightarrow> f x | Throws e \<Rightarrow> Throws e | Unmodelled \<Rightarrow> Unmodelled)"

text \<open>\<^verbatim>\<open>xs[i]\<close> on an array: \<^verbatim>\<open>undefined\<close> outside \<open>0 .. length - 1\<close>.\<close>

definition array_get :: "jsval list \<Rightarrow> int \<Rightarrow> jsval" where
  "array_get xs i = (if 0 \<le> i \<and> i < int (length xs) then xs ! nat i else JUndefined)"

text \<open>\<^verbatim>\<open>xs.slice(start, end)\<close>: a negative bound counts from the end, both are clamped.\<close>

definition slice :: "'a list \<Rightarrow> int \<Rightarrow> int \<Rightarrow> 'a list" where
  "slice xs start fin =
     (let len = int (length xs);
          k = (if start < 0 then max (len + start) 0 else min start len);
          final = (if fin < 0 then max (len + fin) 0 else min fin len)
      in take (nat (final - k)) (drop (nat k) xs))"

text \<open>Truthiness, as \<^verbatim>\<open>!x\<close> and \<^verbatim>\<open>x || y\<close> read it.\<close>

fun truthy :: "jsval \<Rightarrow> bool" where
  "truthy JUndefined = False"
| "truthy JNull = False"
| "truthy (JBool b) = b"
| "truthy (JNum n) = (n \<noteq> 0)"
| "truthy (JNonFinite x) = (x \<noteq> NaN)"
| "truthy (JBigInt n) = (n \<noteq> 0)"
| "truthy (JStr s) = (s \<noteq> [])"
| "truthy (JArr xs) = True"
| "truthy (JObj ps) = True"

section \<open>JSON.stringify\<close>

definition digit_char :: "nat \<Rightarrow> char" where
  "digit_char d = ''0123456789abcdef'' ! d"

function show_nat :: "nat \<Rightarrow> string" where
  "show_nat n = (if n < 10 then [digit_char n] else show_nat (n div 10) @ [digit_char (n mod 10)])"
  by pat_completeness auto
termination
  by (relation "measure id") auto

definition show_int :: "int \<Rightarrow> string" where
  "show_int i = (if i < 0 then CHR ''-'' # show_nat (nat (- i)) else show_nat (nat i))"

text \<open>
  QuoteJSONString: the quotation mark, the backslash and the control characters are
  escaped, every other code unit stands for itself.
\<close>

definition escape_char :: "char \<Rightarrow> string" where
  "escape_char c =
     (let n = (of_char c :: nat) in
      if n = 0x22 then [CHR 0x5C, CHR 0x22]
      else if n = 0x5C then [CHR 0x5C, CHR 0x5C]
      else if n = 0x08 then [CHR 0x5C, CHR ''b'']
      else if n = 0x0C then [CHR 0x5C, CHR ''f'']
      else if n = 0x0A then [CHR 0x5C, CHR ''n'']
      else if n = 0x0D then [CHR 0x5C, CHR ''r'']
      else if n = 0x09 then [CHR 0x5C, CHR ''t'']
      else if n < 0x20 then
        [CHR 0x5C, CHR ''u'', CHR ''0'', CHR ''0'', digit_char (n div 16), digit_char (n mod 16)]
      else [c])"

definition QuoteJSONString :: "string \<Rightarrow> string" where
  "QuoteJSONString s = CHR 0x22 # concat (map escape_char s) @ [CHR 0x22]"

fun join_comma :: "string list \<Rightarrow> string" where
  "join_comma [] = []"
| "join_comma [s] = s"
| "join_comma (s # t # ts) = s @ CHR '','' # join_comma (t # ts)"

text \<open>
  The safe integers (\<^verbatim>\<open>Number.isSafeInteger\<close>): a double holds each of them exactly, and
  \<^verbatim>\<open>JSON.stringify\<close> and \<^verbatim>\<open>String\<close> write them in plain decimal, without an exponent.
\<close>

definition safe_integer :: "int \<Rightarrow> bool" where
  "safe_integer n = (\<bar>n\<bar> \<le> 9007199254740991)"

text \<open>
  \<^verbatim>\<open>JSON.stringify\<close> visits every element of an array and the value of every property of
  an object. \<open>has_bigint\<close>: it meets a BigInt. \<open>safe_numbers\<close>: every number it meets is a
  safe integer or non-finite.
\<close>

fun has_bigint :: "jsval \<Rightarrow> bool" where
  "has_bigint (JBigInt n) = True"
| "has_bigint (JArr xs) = (\<exists>x \<in> set xs. has_bigint x)"
| "has_bigint (JObj ps) = (\<exists>p \<in> set ps. has_bigint (snd p))"
| "has_bigint v = False"

fun safe_numbers :: "jsval \<Rightarrow> bool" where
  "safe_numbers (JNum n) = safe_integer n"
| "safe_numbers (JArr xs) = (\<forall>x \<in> set xs. safe_numbers x)"
| "safe_numbers (JObj ps) = (\<forall>p \<in> set ps. safe_numbers (snd p))"
| "safe_numbers v = True"

text \<open>The values that \<^verbatim>\<open>JSON.stringify\<close> is followed on.\<close>

definition writable :: "jsval \<Rightarrow> bool" where
  "writable v = (\<not> has_bigint v \<and> safe_numbers v)"

text \<open>
  The text \<^verbatim>\<open>JSON.stringify(v)\<close> writes, with no replacer and no indentation, for a value
  without a BigInt and with safe numbers; \<open>None\<close> is the result \<^verbatim>\<open>undefined\<close>. An
  \<^verbatim>\<open>undefined\<close> array element and every non-finite number are written \<^verbatim>\<open>null\<close>; a
  property whose value is \<^verbatim>\<open>undefined\<close> is left out. (No text is written where a BigInt
  is met; the equation for \<open>JBigInt\<close> is never used.)
\<close>

fun JSON_text :: "jsval \<Rightarrow> string option" where
  "JSON_text JUndefined = None"
| "JSON_text JNull = Some ''null''"
| "JSON_text (JBool b) = Some (if b then ''true'' else ''false'')"
| "JSON_text (JNum n) = Some (show_int n)"
| "JSON_text (JNonFinite x) = Some ''null''"
| "JSON_text (JBigInt n) = None"
| "JSON_text (JStr s) = Some (QuoteJSONString s)"
| "JSON_text (JArr xs) =
     Some (CHR ''['' #
       join_comma (map (\<lambda>x. case JSON_text x of None \<Rightarrow> ''null'' | Some t \<Rightarrow> t) xs) @ '']'')"
| "JSON_text (JObj ps) =
     Some (CHR ''{'' #
       join_comma (concat (map (\<lambda>(k, v). case JSON_text v of None \<Rightarrow> []
         | Some t \<Rightarrow> [QuoteJSONString k @ CHR '':'' # t]) ps)) @ ''}'')"

text \<open>
  \<^verbatim>\<open>JSON.stringify(v)\<close>: a TypeError when it meets a BigInt, whatever else the value
  holds; otherwise the text above, which is not followed when a number is not a safe
  integer (\<^verbatim>\<open>1e21\<close> is written \<^verbatim>\<open>1e+21\<close>).
\<close>

definition JSON_stringify :: "jsval \<Rightarrow> string option outcome" where
  "JSON_stringify v =
     (if has_bigint v then Throws TypeError
      else if \<not> safe_numbers v then Unmodelled
      else Returns (JSON_text v))"

text \<open>
  A string or \<^verbatim>\<open>undefined\<close> used as a property key: \<^verbatim>\<open>obj[undefined]\<close> is the property
  named \<^verbatim>\<open>"undefined"\<close>.
\<close>

definition key_of :: "string option \<Rightarrow> string" where
  "key_of t = (case t of None \<Rightarrow> ''undefined'' | Some s \<Rightarrow> s)"

section \<open>Plain objects\<close>

text \<open>
  An object is an association list in enumeration order: the array-index keys (the
  canonical decimal strings up to \<open>2^32 - 2\<close>) in ascending order first, then the other
  keys in the order of their creation.
\<close>

definition is_digit :: "char \<Rightarrow> bool" where
  "is_digit c = (let n = (of_char c :: nat) in 48 \<le> n \<and> n \<le> 57)"

definition read_decimal :: "string \<Rightarrow> int" where
  "read_decimal s = foldl (\<lambda>a c. 10 * a + (of_char c - 48)) 0 s"

definition array_index :: "string \<Rightarrow> int option" where
  "array_index s =
     (if s \<noteq> [] \<and> list_all is_digit s \<and> (s = ''0'' \<or> hd s \<noteq> CHR ''0'') \<and> length s \<le> 10
         \<and> read_decimal s \<le> 4294967294
      then Some (read_decimal s) else None)"

definition obj_get :: "(string \<times> 'a) list \<Rightarrow> string \<Rightarrow> 'a option" where
  "obj_get obj k = map_of obj k"

fun obj_update :: "(string \<times> 'a) list \<Rightarrow> string \<Rightarrow> 'a \<Rightarrow> (string \<times> 'a) list" where
  "obj_update [] k v = []"
| "obj_update ((k', v') # obj) k v = (if k' = k then (k, v) # obj else (k', v') # obj_update obj k v)"

fun obj_insert_index :: "(string \<times> 'a) list \<Rightarrow> int \<Rightarrow> string \<Rightarrow> 'a \<Rightarrow> (string \<times> 'a) list" where
  "obj_insert_index [] i k v = [(k, v)]"
| "obj_insert_index ((k', v') # obj) i k v =
     (case array_index k' of
        None \<Rightarrow> (k, v) # (k', v') # obj
      | Some j \<Rightarrow> if i < j then (k, v) # (k', v') # obj else (k', v') # obj_insert_index obj i k v)"

text \<open>\<^verbatim>\<open>obj[k] = v\<close> on a plain object, for a key other than \<^verbatim>\<open>__proto__\<close>.\<close>

definition obj_set :: "(string \<times> 'a) list \<Rightarrow> string \<Rightarrow> 'a \<Rightarrow> (string \<times> 'a) list" where
  "obj_set obj k v =
     (if obj_get obj k \<noteq> None then obj_update obj k v
      else case array_index k of
             None \<Rightarrow> obj @ [(k, v)]
           | Some i \<Rightarrow> obj_insert_index obj i k v)"

section \<open>The chain\<close>

definition BEGIN :: string where
  "BEGIN = ''@@MARKOV_CHAIN_BEGIN''"

definition END :: string where
  "END = ''@@MARKOV_CHAIN_END''"

definition DEFAULT_STATE_SIZE :: int where
  "DEFAULT_STATE_SIZE = 1"

text \<open>
  The model maps a state key to the follow records of that state, a follow key to
  \<^verbatim>\<open>{ value, count }\<close>. \<^verbatim>\<open>stateSize\<close> is declared \<^verbatim>\<open>number\<close>; it is an integer here.
\<close>

record follow =
  "value" :: jsval
  count :: int

type_synonym follow_set = "(string \<times> follow) list"

type_synonym table = "(string \<times> follow_set) list"

record chain =
  stateSize :: int
  model :: table

definition createStateKey :: "jsval \<Rightarrow> string outcome" where
  "createStateKey originalState =
     (let stateArray = (case originalState of JArr xs \<Rightarrow> xs | _ \<Rightarrow> [originalState])
      in and_then (JSON_stringify (JArr stateArray)) (\<lambda>t. Returns (key_of t)))"

text \<open>The key that \<open>createStateKey\<close> returns, when it returns.\<close>

definition state_key :: "jsval \<Rightarrow> string" where
  "state_key originalState =
     (let stateArray = (case originalState of JArr xs \<Rightarrow> xs | _ \<Rightarrow> [originalState])
      in key_of (JSON_text (JArr stateArray)))"

definition createBeginState :: "int \<Rightarrow> jsval list" where
  "createBeginState n = replicate (nat n) (JStr BEGIN)"

text \<open>\<^verbatim>\<open>x || DEFAULT_STATE_SIZE\<close> on a number.\<close>

definition or_default :: "int \<Rightarrow> int" where
  "or_default x = (if x = 0 then DEFAULT_STATE_SIZE else x)"

subsection \<open>build\<close>

text \<open>\<^verbatim>\<open>Array.isArray\<close>, and the two errors \<^verbatim>\<open>build\<close> throws, told apart by their message.\<close>

fun is_array :: "jsval \<Rightarrow> bool" where
  "is_array (JArr xs) = True"
| "is_array v = False"

fun array_elements :: "jsval \<Rightarrow> jsval list" where
  "array_elements (JArr xs) = xs"
| "array_elements v = []"

text \<open>A corpus that \<^verbatim>\<open>build\<close> accepts: an array of arrays.\<close>

definition valid_corpus :: "jsval \<Rightarrow> bool" where
  "valid_corpus x = (is_array x \<and> list_all is_array (array_elements x))"

definition InvalidCorpus :: js_error where
  "InvalidCorpus = Error ''Corpus must be a List or an Array''"

definition InvalidRun :: js_error where
  "InvalidRun = Error ''Invalid run in corpus: Must be an array''"

text \<open>
  One pass of the innermost loop of \<^verbatim>\<open>Chain.build\<close>: the window that starts at
  \<open>ngramStart\<close>. \<^verbatim>\<open>ngramStart + options.stateSize || DEFAULT_STATE_SIZE\<close> is the sum, or
  the default when the sum is zero. The two calls of \<^verbatim>\<open>JSON.stringify\<close>, in
  \<^verbatim>\<open>createStateKey\<close> and for the follow key, can throw.
\<close>

definition add_ngram :: "int \<Rightarrow> jsval list \<Rightarrow> table \<Rightarrow> nat \<Rightarrow> table outcome" where
  "add_ngram ssize paddedRun m ngramStart =
     (let ngramEnd = or_default (int ngramStart + ssize) in
      and_then (createStateKey (JArr (slice paddedRun (int ngramStart) ngramEnd))) (\<lambda>stateKey.
        let follow = array_get paddedRun ngramEnd;
            m1 = (if obj_get m stateKey = None then obj_set m stateKey [] else m)
        in and_then (JSON_stringify follow) (\<lambda>t.
          let followKey = key_of t;
              fs = (case obj_get m1 stateKey of None \<Rightarrow> [] | Some fs \<Rightarrow> fs);
              fs1 = (if obj_get fs followKey = None
                     then obj_set fs followKey \<lparr>value = follow, count = 0\<rparr> else fs);
              fs2 = (case obj_get fs1 followKey of None \<Rightarrow> fs1
                     | Some r \<Rightarrow> obj_set fs1 followKey (r\<lparr>count := count r + 1\<rparr>))
          in Returns (obj_set m1 stateKey fs2))))"

text \<open>The loop over \<open>ngramStart\<close>, which ends at the first pass that throws.\<close>

fun add_ngrams :: "int \<Rightarrow> jsval list \<Rightarrow> table \<Rightarrow> nat list \<Rightarrow> table outcome" where
  "add_ngrams ssize paddedRun m [] = Returns m"
| "add_ngrams ssize paddedRun m (ngramStart # rest) =
     (case add_ngram ssize paddedRun m ngramStart of
        Returns m' \<Rightarrow> add_ngrams ssize paddedRun m' rest
      | Throws e \<Rightarrow> Throws e
      | Unmodelled \<Rightarrow> Unmodelled)"

definition add_run :: "int \<Rightarrow> jsval list \<Rightarrow> table \<Rightarrow> jsval list \<Rightarrow> table outcome" where
  "add_run ssize beginPadding m run =
     (let paddedRun = beginPadding @ run @ [JStr END]
      in add_ngrams ssize paddedRun m [0 ..< length run + 1])"

fun build_runs :: "int \<Rightarrow> jsval list \<Rightarrow> table \<Rightarrow> jsval list \<Rightarrow> table outcome" where
  "build_runs ssize beginPadding m [] = Returns m"
| "build_runs ssize beginPadding m (run # corpus) =
     (case run of
        JArr syms \<Rightarrow>
          (case add_run ssize beginPadding m syms of
             Returns m' \<Rightarrow> build_runs ssize beginPadding m' corpus
           | Throws e \<Rightarrow> Throws e
           | Unmodelled \<Rightarrow> Unmodelled)
      | _ \<Rightarrow> Throws InvalidRun)"

definition build :: "jsval \<Rightarrow> int \<Rightarrow> table outcome" where
  "build corpus ssize =
     (case corpus of
        JArr runs \<Rightarrow> build_runs ssize (createBeginState (or_default ssize)) [] runs
      | _ \<Rightarrow> Throws InvalidCorpus)"

text \<open>The symbols of a corpus: the elements of its runs.\<close>

definition corpus_symbols :: "jsval \<Rightarrow> jsval list" where
  "corpus_symbols corpus = concat (map array_elements (array_elements corpus))"

subsection \<open>The constructor\<close>

text \<open>
  \<^verbatim>\<open>options.stateSize || DEFAULT_STATE_SIZE\<close>, for the field \<^verbatim>\<open>stateSize: number\<close>: a
  falsy option gives the default, a number is kept, and any other value (which
  \<^verbatim>\<open>fromJSON\<close> can pass, unchecked) has no place in the field.
\<close>

definition state_size_of :: "jsval \<Rightarrow> int option" where
  "state_size_of opt =
     (if \<not> truthy opt then Some DEFAULT_STATE_SIZE
      else case opt of JNum n \<Rightarrow> Some n | _ \<Rightarrow> None)"

text \<open>
  A model handed to the constructor is an object of objects of \<^verbatim>\<open>{ value, count }\<close>
  records. \<open>table_js\<close> is that object for a table; \<open>as_table\<close> reads one back. A record
  whose \<^verbatim>\<open>value\<close> is missing has the value \<^verbatim>\<open>undefined\<close>.
\<close>

definition follow_js :: "follow \<Rightarrow> jsval" where
  "follow_js r = JObj [(''value'', value r), (''count'', JNum (count r))]"

definition table_js :: "table \<Rightarrow> jsval" where
  "table_js m = JObj (map (\<lambda>(k, fs). (k, JObj (map (\<lambda>(fk, r). (fk, follow_js r)) fs))) m)"

definition as_follow :: "jsval \<Rightarrow> follow option" where
  "as_follow v =
     (case v of
        JObj ps \<Rightarrow>
          (case obj_get ps ''count'' of
             Some (JNum n) \<Rightarrow>
               if map fst ps = [''value'', ''count'']
               then Some \<lparr>value = (case obj_get ps ''value'' of None \<Rightarrow> JUndefined | Some x \<Rightarrow> x),
                          count = n\<rparr>
               else if map fst ps = [''count''] then Some \<lparr>value = JUndefined, count = n\<rparr>
               else None
           | _ \<Rightarrow> None)
      | _ \<Rightarrow> None)"

definition as_follow_set :: "jsval \<Rightarrow> follow_set option" where
  "as_follow_set v =
     (case v of
        JObj ps \<Rightarrow> those (map (\<lambda>(fk, r). map_option (Pair fk) (as_follow r)) ps)
      | _ \<Rightarrow> None)"

definition as_table :: "jsval \<Rightarrow> table option" where
  "as_table v =
     (case v of
        JObj ps \<Rightarrow> those (map (\<lambda>(k, fs). map_option (Pair k) (as_follow_set fs)) ps)
      | _ \<Rightarrow> None)"

text \<open>
  \<^verbatim>\<open>new Chain(corpusOrModel, { stateSize })\<close>; the second argument is the option, or
  \<open>JUndefined\<close> when it is omitted. \<^verbatim>\<open>instanceof Object\<close> holds of objects and arrays.
\<close>

definition Chain_new :: "jsval \<Rightarrow> jsval \<Rightarrow> chain outcome" where
  "Chain_new corpusOrModel opt =
     (case state_size_of opt of
        None \<Rightarrow> Unmodelled
      | Some n \<Rightarrow>
          (case corpusOrModel of
             JObj ps \<Rightarrow>
               (case as_table corpusOrModel of
                  None \<Rightarrow> Unmodelled
                | Some m \<Rightarrow> Returns \<lparr>stateSize = n, model = m\<rparr>)
           | _ \<Rightarrow>
               and_then (build corpusOrModel n) (\<lambda>m. Returns \<lparr>stateSize = n, model = m\<rparr>)))"

subsection \<open>toJSON and fromJSON\<close>

definition toJSON :: "chain \<Rightarrow> jsval" where
  "toJSON c =
     (let serialized =
            map (\<lambda>(state, fs).
                   JArr [JStr state, JArr (map (\<lambda>(follow, r). JArr [JStr follow, follow_js r]) fs)])
                (model c)
      in JObj [(''stateSize'', JNum (stateSize c)), (''model'', JArr serialized)])"

text \<open>\<^verbatim>\<open>JSON.stringify(chain)\<close>: the chain has a \<^verbatim>\<open>toJSON\<close> method, whose result is written.\<close>

definition stringify_chain :: "chain \<Rightarrow> string outcome" where
  "stringify_chain c = and_then (JSON_stringify (toJSON c)) (\<lambda>t. Returns (key_of t))"

text \<open>
  Reading \<^verbatim>\<open>x.stateSize\<close> and \<^verbatim>\<open>x.model\<close> (names no built-in prototype defines): a
  TypeError on \<^verbatim>\<open>null\<close> and \<^verbatim>\<open>undefined\<close>, the own property of an object,
  \<^verbatim>\<open>undefined\<close> otherwise.
\<close>

definition get_field :: "jsval \<Rightarrow> string \<Rightarrow> jsval outcome" where
  "get_field x name =
     (case x of
        JUndefined \<Rightarrow> Throws TypeError
      | JNull \<Rightarrow> Throws TypeError
      | JObj ps \<Rightarrow> Returns (case obj_get ps name of None \<Rightarrow> JUndefined | Some v \<Rightarrow> v)
      | _ \<Rightarrow> Returns JUndefined)"

text \<open>
  The values \<^verbatim>\<open>x[0], x[1], ...\<close> that \<^verbatim>\<open>for (let i = 0; i < x.length; i++)\<close> visits.
  An array gives its elements and a string its characters; a number or a boolean has no
  \<^verbatim>\<open>length\<close>, so the loop does not run; an object is read through its own \<^verbatim>\<open>length\<close>
  property, where a length that is not a finite number is not followed.
\<close>

definition loop_elements :: "jsval \<Rightarrow> jsval list outcome" where
  "loop_elements x =
     (case x of
        JUndefined \<Rightarrow> Throws TypeError
      | JNull \<Rightarrow> Throws TypeError
      | JArr xs \<Rightarrow> Returns xs
      | JStr s \<Rightarrow> Returns (map (\<lambda>c. JStr [c]) s)
      | JObj ps \<Rightarrow>
          (case obj_get ps ''length'' of
             None \<Rightarrow> Returns []
           | Some (JNum n) \<Rightarrow>
               Returns (map (\<lambda>i. case obj_get ps (show_nat i) of None \<Rightarrow> JUndefined | Some v \<Rightarrow> v)
                            [0 ..< nat n])
           | Some JUndefined \<Rightarrow> Returns []
           | Some JNull \<Rightarrow> Returns []
           | Some _ \<Rightarrow> Unmodelled)
      | _ \<Rightarrow> Returns [])"

text \<open>
  \<^verbatim>\<open>const [a, b] = x\<close>: the first two values of an array or the first two characters of a
  string, \<^verbatim>\<open>undefined\<close> where there is none; any other value is not iterable.
\<close>

definition destructure_pair :: "jsval \<Rightarrow> (jsval \<times> jsval) outcome" where
  "destructure_pair x =
     (case x of
        JArr xs \<Rightarrow> Returns (array_get xs 0, array_get xs 1)
      | JStr s \<Rightarrow> Returns (array_get (map (\<lambda>c. JStr [c]) s) 0, array_get (map (\<lambda>c. JStr [c]) s) 1)
      | _ \<Rightarrow> Throws TypeError)"

text \<open>
  A value used as a property key. Primitives are written out (a number that is not a
  safe integer is not followed); the string of an array or an object comes from its
  \<^verbatim>\<open>toString\<close> method and is not followed. Assigning to the
  key \<^verbatim>\<open>__proto__\<close> replaces the prototype instead of creating a property.
\<close>

definition property_key :: "jsval \<Rightarrow> string outcome" where
  "property_key x =
     (let k = (case x of
                 JUndefined \<Rightarrow> Some ''undefined''
               | JNull \<Rightarrow> Some ''null''
               | JBool b \<Rightarrow> Some (if b then ''true'' else ''false'')
               | JNum n \<Rightarrow> if safe_integer n then Some (show_int n) else None
               | JBigInt n \<Rightarrow> Some (show_int n)
               | JStr s \<Rightarrow> Some s
               | _ \<Rightarrow> None)
      in case k of None \<Rightarrow> Unmodelled
         | Some s \<Rightarrow> if s = ''__proto__'' then Unmodelled else Returns s)"

text \<open>\<^verbatim>\<open>Object.assign({}, x)\<close>: a copy of the own properties of \<open>x\<close>.\<close>

definition object_assign :: "jsval \<Rightarrow> jsval outcome" where
  "object_assign x =
     (case x of
        JObj ps \<Rightarrow> if ''__proto__'' \<in> set (map fst ps) then Unmodelled else Returns (JObj ps)
      | JArr xs \<Rightarrow> Returns (JObj (map (\<lambda>i. (show_nat i, xs ! i)) [0 ..< length xs]))
      | JStr s \<Rightarrow> Returns (JObj (map (\<lambda>i. (show_nat i, JStr [s ! i])) [0 ..< length s]))
      | _ \<Rightarrow> Returns (JObj []))"

text \<open>The inner loop of \<^verbatim>\<open>fromJSON\<close>: one follow map, from the entries of \<^verbatim>\<open>follow\<close>.\<close>

fun follow_map_of :: "(string \<times> jsval) list \<Rightarrow> jsval list \<Rightarrow> (string \<times> jsval) list outcome" where
  "follow_map_of followMap [] = Returns followMap"
| "follow_map_of followMap (entry # entries) =
     and_then (destructure_pair entry) (\<lambda>(followKey, followData).
     and_then (object_assign followData) (\<lambda>copy.
     and_then (property_key followKey) (\<lambda>k.
       follow_map_of (obj_set followMap k copy) entries)))"

text \<open>The outer loop: the list \<^verbatim>\<open>states\<close> of pairs of a state key and a follow map.\<close>

fun states_of :: "jsval list \<Rightarrow> (jsval \<times> jsval) list outcome" where
  "states_of [] = Returns []"
| "states_of (entry # entries) =
     and_then (destructure_pair entry) (\<lambda>(stateKey, follow).
     and_then (loop_elements follow) (\<lambda>followEntries.
     and_then (follow_map_of [] followEntries) (\<lambda>followMap.
     and_then (states_of entries) (\<lambda>states.
       Returns ((stateKey, JObj followMap) # states)))))"

text \<open>\<^verbatim>\<open>states.reduce((acc, [key, value]) => { acc[key] = value; return acc }, {})\<close>.\<close>

fun reduce_states :: "(string \<times> jsval) list \<Rightarrow> (jsval \<times> jsval) list \<Rightarrow> (string \<times> jsval) list outcome" where
  "reduce_states acc [] = Returns acc"
| "reduce_states acc ((key, v) # states) =
     and_then (property_key key) (\<lambda>k. reduce_states (obj_set acc k v) states)"

text \<open>
  The body of \<^verbatim>\<open>Chain.fromJSON\<close> after \<^verbatim>\<open>JSON.parse\<close>: from the parsed data to the chain.
\<close>

definition hydrate :: "jsval \<Rightarrow> chain outcome" where
  "hydrate parsedData =
     and_then (get_field parsedData ''stateSize'') (\<lambda>size_opt.
     and_then (get_field parsedData ''model'') (\<lambda>m.
     and_then (loop_elements m) (\<lambda>entries.
     and_then (states_of entries) (\<lambda>states.
     and_then (reduce_states [] states) (\<lambda>acc.
       Chain_new (JObj acc) size_opt)))))"

text \<open>
  \<^verbatim>\<open>Chain.fromJSON(jsonData)\<close>. \<^verbatim>\<open>JSON.parse\<close> belongs to the platform: it is the
  parameter \<open>parse\<close>, with \<open>None\<close> for a text it rejects with a SyntaxError.
\<close>

definition fromJSON :: "(string \<Rightarrow> jsval option) \<Rightarrow> string \<Rightarrow> chain outcome" where
  "fromJSON parse jsonData =
     (case parse jsonData of
        None \<Rightarrow> Throws SyntaxError
      | Some parsedData \<Rightarrow> hydrate parsedData)"

text \<open>
  The form \<^verbatim>\<open>toJSON\<close> writes, as a predicate on parsed data: an object with an integer
  \<^verbatim>\<open>stateSize\<close> and a \<^verbatim>\<open>model\<close> that is an array of pairs of a state key and an array of
  pairs of a follow key and a record, where no key is \<^verbatim>\<open>__proto__\<close>.
\<close>

fun follow_entry_shape :: "jsval \<Rightarrow> bool" where
  "follow_entry_shape (JArr [JStr followKey, r]) = (followKey \<noteq> ''__proto__'' \<and> as_follow r \<noteq> None)"
| "follow_entry_shape _ = False"

fun state_entry_shape :: "jsval \<Rightarrow> bool" where
  "state_entry_shape (JArr [JStr stateKey, JArr follow]) =
     (stateKey \<noteq> ''__proto__'' \<and> list_all follow_entry_shape follow)"
| "state_entry_shape _ = False"

definition expected_shape :: "jsval \<Rightarrow> bool" where
  "expected_shape v =
     (case v of
        JObj ps \<Rightarrow>
          (case (obj_get ps ''stateSize'', obj_get ps ''model'') of
             (Some (JNum n), Some (JArr entries)) \<Rightarrow> list_all state_entry_shape entries
           | _ \<Rightarrow> False)
      | _ \<Rightarrow> False)"

subsection \<open>move and walk\<close>

text \<open>
  The running sums of the weights, and the scan for the first sum above the draw
  (the loop \<^verbatim>\<open>for (randomIndex = 0; randomIndex < length && r >= cumulativeDistribution[randomIndex]; randomIndex++)\<close>).
\<close>

fun cumulative :: "int \<Rightarrow> int list \<Rightarrow> int list" where
  "cumulative cumSum [] = []"
| "cumulative cumSum (w # weights) = (cumSum + w) # cumulative (cumSum + w) weights"

fun scan_index :: "real \<Rightarrow> int list \<Rightarrow> nat \<Rightarrow> nat" where
  "scan_index r [] randomIndex = randomIndex"
| "scan_index r (c # cs) randomIndex =
     (if r \<ge> real_of_int c then scan_index r cs (Suc randomIndex) else randomIndex)"

text \<open>
  \<^verbatim>\<open>move(fromState)\<close>. The draw \<^verbatim>\<open>const r = Math.random() * cumSum\<close> is a double that the
  platform computes, with its own rounding of the product; its value \<open>r\<close> is an argument
  here, and nothing is assumed about how it comes from \<^verbatim>\<open>cumSum\<close>.
\<close>

definition move :: "chain \<Rightarrow> real \<Rightarrow> jsval \<Rightarrow> jsval outcome" where
  "move c r fromState =
     and_then (createStateKey fromState) (\<lambda>stateKey.
       case obj_get (model c) stateKey of
         None \<Rightarrow> Returns JUndefined
       | Some state \<Rightarrow>
           (let choices = map (\<lambda>(key, r). value r) state;
                weights = map (\<lambda>(key, r). count r) state;
                cumulativeDistribution = cumulative 0 weights;
                randomIndex = scan_index r cumulativeDistribution 0
            in Returns (array_get choices (int randomIndex))))"

text \<open>
  \<^verbatim>\<open>walk\<close> changes its state array in place, so arrays live in a store: a caller's array
  is an address, and \<open>cells\<close> gives the contents.
\<close>

record heap =
  cells :: "nat \<Rightarrow> jsval list"
  next_free :: nat

definition alloc :: "heap \<Rightarrow> jsval list \<Rightarrow> nat \<times> heap" where
  "alloc h xs = (next_free h, h\<lparr>cells := (cells h)(next_free h := xs), next_free := Suc (next_free h)\<rparr>)"

text \<open>
  The argument of \<^verbatim>\<open>walk\<close>: none, the caller's array at an address, or a value that
  nobody else holds (a primitive, an object, or an array written in the call itself).
\<close>

datatype from_state = Omitted | ArrayAt nat | Other jsval

text \<open>
  The loop of \<^verbatim>\<open>walk\<close> on the array at address \<open>a\<close>. Each pass takes one draw from the
  list; \<open>None\<close> says that the loop is still running when the draws are used up. A
  \<^verbatim>\<open>move\<close> that throws ends the walk with its error, the array as it is by then.
\<close>

fun walk_loop :: "chain \<Rightarrow> nat \<Rightarrow> heap \<Rightarrow> jsval list \<Rightarrow> real list \<Rightarrow> (jsval list outcome \<times> heap) option" where
  "walk_loop c a h steps [] =
     (case createStateKey (JArr (cells h a)) of
        Returns stateKey \<Rightarrow> if obj_get (model c) stateKey = None then Some (Returns steps, h) else None
      | Throws e \<Rightarrow> Some (Throws e, h)
      | Unmodelled \<Rightarrow> Some (Unmodelled, h))"
| "walk_loop c a h steps (r # rs) =
     (case move c r (JArr (cells h a)) of
        Returns step \<Rightarrow>
          if step = JUndefined \<or> step = JStr END then Some (Returns steps, h)
          else walk_loop c a (h\<lparr>cells := (cells h)(a := tl (cells h a) @ [step])\<rparr>) (steps @ [step]) rs
      | Throws e \<Rightarrow> Some (Throws e, h)
      | Unmodelled \<Rightarrow> Some (Unmodelled, h))"

text \<open>
  \<^verbatim>\<open>walk(fromState)\<close>: \<^verbatim>\<open>let state = fromState || createBeginState(this.stateSize)\<close>
  is the caller's own array when one is given. A truthy value that is not an array has
  no \<^verbatim>\<open>shift\<close> method: the first step that is taken ends in a TypeError.
\<close>

definition walk :: "chain \<Rightarrow> real list \<Rightarrow> heap \<Rightarrow> from_state \<Rightarrow> (jsval list outcome \<times> heap) option" where
  "walk c draws h fromState =
     (let on_new = (\<lambda>xs. let (a, h') = alloc h xs in walk_loop c a h' [] draws)
      in case fromState of
           Omitted \<Rightarrow> on_new (createBeginState (stateSize c))
         | ArrayAt a \<Rightarrow> walk_loop c a h [] draws
         | Other (JArr xs) \<Rightarrow> on_new xs
         | Other v \<Rightarrow>
             if \<not> truthy v then on_new (createBeginState (stateSize c))
             else (case createStateKey v of
                     Throws e \<Rightarrow> Some (Throws e, h)
                   | Unmodelled \<Rightarrow> Some (Unmodelled, h)
                   | Returns stateKey \<Rightarrow>
                       if obj_get (model c) stateKey = None then Some (Returns [], h)
                       else (case draws of
                               [] \<Rightarrow> None
                             | r # rs \<Rightarrow>
                                 (case move c r v of
                                    Returns step \<Rightarrow>
                                      if step = JUndefined \<or> step = JStr END then Some (Returns [], h)
                                      else Some (Throws TypeError, h)
                                  | Throws e \<Rightarrow> Some (Throws e, h)
                                  | Unmodelled \<Rightarrow> Some (Unmodelled, h)))))"

subsection \<open>The windows of a corpus\<close>

text \<open>
  What the specification counts: each run is padded with \<open>n\<close> copies of \<^verbatim>\<open>BEGIN\<close> on the
  left and one \<^verbatim>\<open>END\<close> on the right, and a window starts at every index from \<open>0\<close> to the
  length of the run; it is the state (\<open>n\<close> symbols) and the symbol that follows it.
\<close>

definition padded_run :: "nat \<Rightarrow> jsval list \<Rightarrow> jsval list" where
  "padded_run n run = replicate n (JStr BEGIN) @ run @ [JStr END]"

definition windows_of_run :: "nat \<Rightarrow> jsval list \<Rightarrow> (jsval list \<times> jsval) list" where
  "windows_of_run n run =
     map (\<lambda>i. (take n (drop i (padded_run n run)), padded_run n run ! (i + n))) [0 ..< length run + 1]"

definition windows :: "nat \<Rightarrow> jsval list list \<Rightarrow> (jsval list \<times> jsval) list" where
  "windows n runs = concat (map (windows_of_run n) runs)"

text \<open>
  The two keys under which \<^verbatim>\<open>build\<close> files a window: \<^verbatim>\<open>createStateKey\<close> of the state and
  \<^verbatim>\<open>JSON.stringify\<close> of the follow symbol; and the number of windows with given keys.
\<close>

definition window_keys :: "jsval list \<times> jsval \<Rightarrow> string outcome \<times> string outcome" where
  "window_keys w =
     (createStateKey (JArr (fst w)), and_then (JSON_stringify (snd w)) (\<lambda>t. Returns (key_of t)))"

definition occurrences :: "nat \<Rightarrow> jsval list list \<Rightarrow> string \<Rightarrow> string \<Rightarrow> nat" where
  "occurrences n runs stateKey followKey =
     length (filter (\<lambda>w. window_keys w = (Returns stateKey, Returns followKey)) (windows n runs))"

text \<open>The same keys as texts, for symbols that \<^verbatim>\<open>JSON.stringify\<close> writes.\<close>

definition window_texts :: "jsval list \<times> jsval \<Rightarrow> string \<times> string" where
  "window_texts w = (state_key (JArr (fst w)), key_of (JSON_text (snd w)))"

text \<open>The record of a state key and a follow key in a table.\<close>

definition lookup_follow :: "table \<Rightarrow> string \<Rightarrow> string \<Rightarrow> follow option" where
  "lookup_follow m stateKey followKey =
     (case obj_get m stateKey of None \<Rightarrow> None | Some fs \<Rightarrow> obj_get fs followKey)"

text \<open>
  The body of the innermost loop of \<^verbatim>\<open>build\<close>, as a function of the window it reads,
  when both keys are written.
\<close>

definition count_window :: "table \<Rightarrow> jsval list \<times> jsval \<Rightarrow> table" where
  "count_window m w =
     (let stateKey = state_key (JArr (fst w));
          follow = snd w;
          m1 = (if obj_get m stateKey = None then obj_set m stateKey [] else m);
          followKey = key_of (JSON_text follow);
          fs = (case obj_get m1 stateKey of None \<Rightarrow> [] | Some fs \<Rightarrow> fs);
          fs1 = (if obj_get fs followKey = None
                 then obj_set fs followKey \<lparr>value = follow, count = 0\<rparr> else fs);
          fs2 = (case obj_get fs1 followKey of None \<Rightarrow> fs1
                 | Some r \<Rightarrow> obj_set fs1 followKey (r\<lparr>count := count r + 1\<rparr>))
      in obj_set m1 stateKey fs2)"

text \<open>
  The corpus of the test \<^verbatim>\<open>building models from text corpora\<close> and the table it expects,
  written as the test writes it: through \<^verbatim>\<open>createStateKey\<close> and \<^verbatim>\<open>JSON.stringify\<close>, which
  return on its strings.
\<close>

definition scenario_corpus :: "jsval list list" where
  "scenario_corpus =
     [[JStr ''foo'', JStr ''bar'', JStr ''baz'', JStr ''qux.''],
      [JStr ''foo'', JStr ''baz'', JStr ''qux'', JStr ''bar.'']]"

definition transition :: "jsval list \<Rightarrow> (jsval \<times> int) list \<Rightarrow> string \<times> follow_set" where
  "transition state follows =
     (state_key (JArr state),
      map (\<lambda>(x, k). (key_of (JSON_text x), \<lparr>value = x, count = k\<rparr>)) follows)"

definition scenario_table :: table where
  "scenario_table =
     [transition [JStr BEGIN, JStr BEGIN] [(JStr ''foo'', 2)],
      transition [JStr BEGIN, JStr ''foo''] [(JStr ''bar'', 1), (JStr ''baz'', 1)],
      transition [JStr ''foo'', JStr ''bar''] [(JStr ''baz'', 1)],
      transition [JStr ''bar'', JStr ''baz''] [(JStr ''qux.'', 1)],
      transition [JStr ''baz'', JStr ''qux.''] [(JStr END, 1)],
      transition [JStr ''foo'', JStr ''baz''] [(JStr ''qux'', 1)],
      transition [JStr ''baz'', JStr ''qux''] [(JStr ''bar.'', 1)],
      transition [JStr ''qux'', JStr ''bar.''] [(JStr END, 1)]]"

subsection \<open>Weights of a follow set\<close>



text \<open>
  The chain \<^verbatim>\<open>new Chain(corpus)\<close> of the tests \<^verbatim>\<open>moving on chains (stateSize = 1)\<close> and
  \<^verbatim>\<open>walking chains (string corpus)\<close>.
\<close>

definition scenario_chain :: chain where
  "scenario_chain =
     \<lparr>stateSize = 1,
      model =
        [transition [JStr BEGIN] [(JStr ''foo'', 2)],
         transition [JStr ''foo''] [(JStr ''bar'', 1), (JStr ''baz'', 1)],
         transition [JStr ''bar''] [(JStr ''baz'', 1)],
         transition [JStr ''baz''] [(JStr ''qux.'', 1), (JStr ''qux'', 1)],
         transition [JStr ''qux.''] [(JStr END, 1)],
         transition [JStr ''qux''] [(JStr ''bar.'', 1)],
         transition [JStr ''bar.''] [(JStr END, 1)]]\<rparr>"

subsection \<open>The course of a walk\<close>

text \<open>
  The state array after \<open>i\<close> steps of a walk that began with the array \<open>start\<close>: each step
  drops the oldest symbol and appends the new one.
\<close>

definition state_at :: "jsval list \<Rightarrow> jsval list \<Rightarrow> nat \<Rightarrow> jsval list" where
  "state_at start steps i = drop i (start @ take i steps)"

text \<open>
  The loop ends at a state: the model has no entry for it, or the move drawn there is
  \<^verbatim>\<open>undefined\<close> or \<^verbatim>\<open>END\<close>.
\<close>

definition stops_at :: "chain \<Rightarrow> real list \<Rightarrow> jsval list \<Rightarrow> nat \<Rightarrow> bool" where
  "stops_at c draws state k =
     ((case createStateKey (JArr state) of
         Returns stateKey \<Rightarrow> obj_get (model c) stateKey = None
       | _ \<Rightarrow> False) \<or>
      (k < length draws \<and>
       (move c (draws ! k) (JArr state) = Returns JUndefined \<or>
        move c (draws ! k) (JArr state) = Returns (JStr END))))"

text \<open>The values held by the records of a table.\<close>

definition table_values :: "table \<Rightarrow> jsval set" where
  "table_values m = {value r | k fs fk r. (k, fs) \<in> set m \<and> (fk, r) \<in> set fs}"

text \<open>A store with no array in it.\<close>

definition empty_heap :: heap where
  "empty_heap = \<lparr>cells = (\<lambda>a. []), next_free = 0\<rparr>"

section \<open>JSON values and a reader for compact JSON\<close>

text \<open>
  The order in which an object lists two of its keys: an array index comes before a key
  that is none, two array indices come in ascending order, and two other keys differ.
\<close>

definition key_before :: "string \<Rightarrow> string \<Rightarrow> bool" where
  "key_before a b =
     (case (array_index a, array_index b) of
        (Some i, Some j) \<Rightarrow> i < j
      | (Some i, None) \<Rightarrow> True
      | (None, Some j) \<Rightarrow> False
      | (None, None) \<Rightarrow> a \<noteq> b)"

definition enum_ordered :: "string list \<Rightarrow> bool" where
  "enum_ordered ks = sorted_wrt key_before ks"

text \<open>
  The values JSON can hold, among the values of this development: no \<^verbatim>\<open>undefined\<close>, no
  non-finite number and no BigInt anywhere, every number a safe integer, and every object
  with its keys in the order of enumeration.
\<close>

fun json_value :: "jsval \<Rightarrow> bool" where
  "json_value JUndefined = False"
| "json_value JNull = True"
| "json_value (JBool b) = True"
| "json_value (JNum n) = safe_integer n"
| "json_value (JNonFinite x) = False"
| "json_value (JBigInt n) = False"
| "json_value (JStr s) = True"
| "json_value (JArr xs) = (\<forall>x \<in> set xs. json_value x)"
| "json_value (JObj ps) = ((\<forall>p \<in> set ps. json_value (snd p)) \<and> enum_ordered (map fst ps))"

text \<open>
  A reader for the compact texts that \<open>JSON_stringify\<close> writes: no white space, integers
  only, code units below 256. It stands in for \<^verbatim>\<open>JSON.parse\<close> on such texts; its first
  argument bounds the depth of the recursion. An object is built property by property, as
  \<^verbatim>\<open>JSON.parse\<close> builds it.
\<close>

definition hex_value :: "char \<Rightarrow> nat option" where
  "hex_value c =
     (let n = (of_char c :: nat) in
      if 48 \<le> n \<and> n \<le> 57 then Some (n - 48)
      else if 97 \<le> n \<and> n \<le> 102 then Some (n - 87)
      else if 65 \<le> n \<and> n \<le> 70 then Some (n - 55)
      else None)"

definition unescape_char :: "char \<Rightarrow> char option" where
  "unescape_char e =
     (if e = CHR 0x22 then Some (CHR 0x22)
      else if e = CHR 0x5C then Some (CHR 0x5C)
      else if e = CHR ''/'' then Some (CHR ''/'')
      else if e = CHR ''b'' then Some (CHR 0x08)
      else if e = CHR ''f'' then Some (CHR 0x0C)
      else if e = CHR ''n'' then Some (CHR 0x0A)
      else if e = CHR ''r'' then Some (CHR 0x0D)
      else if e = CHR ''t'' then Some (CHR 0x09)
      else None)"

fun read_string_body :: "string \<Rightarrow> (string \<times> string) option" where
  "read_string_body [] = None"
| "read_string_body (c # cs) =
     (if c = CHR 0x22 then Some ([], cs)
      else if c = CHR 0x5C then
        (case cs of
           [] \<Rightarrow> None
         | e # r \<Rightarrow>
             if e = CHR ''u'' then
               (case r of
                  h1 # h2 # h3 # h4 # r' \<Rightarrow>
                    (case (hex_value h1, hex_value h2, hex_value h3, hex_value h4) of
                       (Some a, Some b, Some x, Some y) \<Rightarrow>
                         if a = 0 \<and> b = 0
                         then map_option (\<lambda>(s, t). (char_of (16 * x + y) # s, t)) (read_string_body r')
                         else None
                     | _ \<Rightarrow> None)
                | _ \<Rightarrow> None)
             else
               (case unescape_char e of
                  None \<Rightarrow> None
                | Some d \<Rightarrow> map_option (\<lambda>(s, t). (d # s, t)) (read_string_body r)))
      else if (of_char c :: nat) < 32 then None
      else map_option (\<lambda>(s, t). (c # s, t)) (read_string_body cs))"

definition read_digits :: "bool \<Rightarrow> string \<Rightarrow> (int \<times> string) option" where
  "read_digits negative body =
     (let digits = takeWhile is_digit body;
          rest = dropWhile is_digit body
      in if digits = [] \<or> (hd digits = CHR ''0'' \<and> digits \<noteq> ''0'') \<or> (negative \<and> digits = ''0'')
            \<or> (rest \<noteq> [] \<and> hd rest \<in> {CHR ''.'', CHR ''e'', CHR ''E''})
         then None
         else Some (if negative then - read_decimal digits else read_decimal digits, rest))"

definition read_number :: "string \<Rightarrow> (int \<times> string) option" where
  "read_number s =
     (case s of
        [] \<Rightarrow> None
      | c # cs \<Rightarrow> if c = CHR ''-'' then read_digits True cs else read_digits False s)"

fun read_value :: "nat \<Rightarrow> string \<Rightarrow> (jsval \<times> string) option"
  and read_elements :: "nat \<Rightarrow> string \<Rightarrow> (jsval list \<times> string) option"
  and read_members :: "nat \<Rightarrow> string \<Rightarrow> ((string \<times> jsval) list \<times> string) option" where
  "read_value 0 s = None"
| "read_value (Suc n) s =
     (if take 4 s = ''null'' then Some (JNull, drop 4 s)
      else if take 4 s = ''true'' then Some (JBool True, drop 4 s)
      else if take 5 s = ''false'' then Some (JBool False, drop 5 s)
      else if take 1 s = [CHR 0x22] then map_option (\<lambda>(t, r). (JStr t, r)) (read_string_body (drop 1 s))
      else if take 2 s = ''[]'' then Some (JArr [], drop 2 s)
      else if take 1 s = ''['' then map_option (\<lambda>(xs, r). (JArr xs, r)) (read_elements n (drop 1 s))
      else if take 2 s = ''{}'' then Some (JObj [], drop 2 s)
      else if take 1 s = ''{'' then
        map_option (\<lambda>(ps, r). (JObj (foldl (\<lambda>obj (k, v). obj_set obj k v) [] ps), r)) (read_members n (drop 1 s))
      else map_option (\<lambda>(i, r). (JNum i, r)) (read_number s))"
| "read_elements 0 s = None"
| "read_elements (Suc n) s =
     (case read_value n s of
        None \<Rightarrow> None
      | Some (v, r) \<Rightarrow>
          if take 1 r = '','' then map_option (\<lambda>(vs, r'). (v # vs, r')) (read_elements n (drop 1 r))
          else if take 1 r = '']'' then Some ([v], drop 1 r)
          else None)"
| "read_members 0 s = None"
| "read_members (Suc n) s =
     (if take 1 s \<noteq> [CHR 0x22] then None
      else case read_string_body (drop 1 s) of
        None \<Rightarrow> None
      | Some (k, r) \<Rightarrow>
          if take 1 r \<noteq> '':'' then None
          else case read_value n (drop 1 r) of
            None \<Rightarrow> None
          | Some (v, r') \<Rightarrow>
              if take 1 r' = '','' then map_option (\<lambda>(ps, r''). ((k, v) # ps, r'')) (read_members n (drop 1 r'))
              else if take 1 r' = ''}'' then Some ([(k, v)], drop 1 r')
              else None)"

definition read_compact :: "string \<Rightarrow> jsval option" where
  "read_compact t =
     (case read_value (length t) t of
        Some (v, []) \<Rightarrow> Some v
      | _ \<Rightarrow> None)"

text \<open>The text of a value inside an array, where \<^verbatim>\<open>undefined\<close> is written \<^verbatim>\<open>null\<close>.\<close>

definition text_of :: "jsval \<Rightarrow> string" where
  "text_of v = (case JSON_text v of None \<Rightarrow> ''null'' | Some t \<Rightarrow> t)"

definition member_text :: "string \<times> jsval \<Rightarrow> string" where
  "member_text p = QuoteJSONString (fst p) @ CHR '':'' # text_of (snd p)"

text \<open>What may follow a number in a text, and what a value may start with.\<close>

definition ends_number :: "string \<Rightarrow> bool" where
  "ends_number rest = (rest = [] \<or> hd rest \<in> {CHR '','', CHR '']'', CHR ''}''})"

definition starts_value :: "char \<Rightarrow> bool" where
  "starts_value c = (c \<in> {CHR ''n'', CHR ''t'', CHR ''f'', CHR 0x22, CHR ''['', CHR ''{'', CHR ''-''} \<or> is_digit c)"

subsection \<open>The data that fromJSON reads\<close>

text \<open>The assignments \<^verbatim>\<open>obj[k] = v\<close> for the pairs of a list, in order.\<close>

definition assign_all :: "(string \<times> 'a) list \<Rightarrow> (string \<times> 'a) list \<Rightarrow> (string \<times> 'a) list" where
  "assign_all obj kvs = foldl (\<lambda>obj (k, v). obj_set obj k v) obj kvs"

text \<open>
  One entry \<^verbatim>\<open>[stateKey, [[followKey, record], ...]]\<close> of the array \<^verbatim>\<open>model\<close> that
  \<^verbatim>\<open>toJSON\<close> writes.
\<close>

definition entry_js :: "string \<times> (string \<times> jsval) list \<Rightarrow> jsval" where
  "entry_js e = JArr [JStr (fst e), JArr (map (\<lambda>(fk, r). JArr [JStr fk, r]) (snd e))]"

text \<open>An object without a property named \<^verbatim>\<open>__proto__\<close>.\<close>

definition plain_record :: "jsval \<Rightarrow> bool" where
  "plain_record r = (case r of JObj ps \<Rightarrow> ''__proto__'' \<notin> set (map fst ps) | _ \<Rightarrow> False)"

text \<open>Follow entries that \<^verbatim>\<open>fromJSON\<close> copies as they are.\<close>

definition good_follows :: "(string \<times> jsval) list \<Rightarrow> bool" where
  "good_follows fes = (\<forall>e \<in> set fes. fst e \<noteq> ''__proto__'' \<and> plain_record (snd e))"

text \<open>
  The table \<^verbatim>\<open>fromJSON\<close> rebuilds from such entries: every state and every follow key is
  assigned in the order of the entries, a later entry replacing an earlier one of the same
  key.
\<close>

definition hydrated :: "(string \<times> (string \<times> jsval) list) list \<Rightarrow> table" where
  "hydrated tbl =
     assign_all [] (map (\<lambda>(k, fes). (k, assign_all [] (map (\<lambda>(fk, r). (fk, the (as_follow r))) fes))) tbl)"

text \<open>Entries whose keys are not \<^verbatim>\<open>__proto__\<close> and whose records are \<^verbatim>\<open>{ value, count }\<close>.\<close>

definition shaped :: "(string \<times> (string \<times> jsval) list) list \<Rightarrow> bool" where
  "shaped tbl =
     (\<forall>e \<in> set tbl. fst e \<noteq> ''__proto__'' \<and>
        (\<forall>x \<in> set (snd e). fst x \<noteq> ''__proto__'' \<and> as_follow (snd x) \<noteq> None))"


section \<open>Properties of build\<close>

lemma and_then_Returns [simp]: "and_then (Returns x) f = f x"
  by (simp add: and_then_def)

lemma and_then_Throws [simp]: "and_then (Throws e) f = Throws e"
  by (simp add: and_then_def)

lemma and_then_Unmodelled [simp]: "and_then Unmodelled f = Unmodelled"
  by (simp add: and_then_def)

lemma and_then_Returns_iff:
  "and_then m f = Returns y \<longleftrightarrow> (\<exists>x. m = Returns x \<and> f x = Returns y)"
  by (cases m) simp_all

lemma and_then_Throws_iff:
  "and_then m f = Throws e \<longleftrightarrow> m = Throws e \<or> (\<exists>x. m = Returns x \<and> f x = Throws e)"
  by (cases m) simp_all

lemma JSON_stringify_writable: "writable v \<Longrightarrow> JSON_stringify v = Returns (JSON_text v)"
  by (simp add: JSON_stringify_def writable_def)

lemma JSON_stringify_Returns_iff:
  "JSON_stringify v = Returns t \<longleftrightarrow> writable v \<and> t = JSON_text v"
  by (auto simp: JSON_stringify_def writable_def)

lemma JSON_stringify_Throws_iff:
  "JSON_stringify v = Throws e \<longleftrightarrow> has_bigint v \<and> e = TypeError"
  by (auto simp: JSON_stringify_def)

lemma has_bigint_state_array:
  "has_bigint (JArr (case v of JArr xs \<Rightarrow> xs | _ \<Rightarrow> [v])) = has_bigint v"
  by (cases v) simp_all

lemma safe_numbers_state_array:
  "safe_numbers (JArr (case v of JArr xs \<Rightarrow> xs | _ \<Rightarrow> [v])) = safe_numbers v"
  by (cases v) simp_all

lemma createStateKey_cases:
  "createStateKey v =
     (if has_bigint v then Throws TypeError
      else if \<not> safe_numbers v then Unmodelled
      else Returns (state_key v))"
  unfolding createStateKey_def state_key_def JSON_stringify_def Let_def
    has_bigint_state_array safe_numbers_state_array
  by simp

lemma createStateKey_writable: "writable v \<Longrightarrow> createStateKey v = Returns (state_key v)"
  by (simp add: createStateKey_cases writable_def)

lemma createStateKey_Returns_iff:
  "createStateKey v = Returns k \<longleftrightarrow> writable v \<and> k = state_key v"
  by (auto simp: createStateKey_cases writable_def)

lemma createStateKey_Throws_iff:
  "createStateKey v = Throws e \<longleftrightarrow> has_bigint v \<and> e = TypeError"
  by (auto simp: createStateKey_cases)

lemma writable_JArr: "writable (JArr xs) \<longleftrightarrow> (\<forall>x \<in> set xs. writable x)"
  by (auto simp: writable_def)

lemma writable_simps [simp]:
  "writable JUndefined" "writable JNull" "writable (JBool b)" "writable (JStr s)"
  "writable (JNonFinite x)" "\<not> writable (JBigInt n)" "writable (JNum i) = safe_integer i"
  by (simp_all add: writable_def)

lemma set_slice: "set (slice xs a b) \<subseteq> set xs"
  unfolding slice_def Let_def by (meson set_take_subset set_drop_subset subset_trans)

lemma array_get_cases: "array_get xs i = JUndefined \<or> array_get xs i \<in> set xs"
proof (cases "0 \<le> i \<and> i < int (length xs)")
  case True
  then have "nat i < length xs" by linarith
  then have "xs ! nat i \<in> set xs" by (rule nth_mem)
  then show ?thesis using True by (simp add: array_get_def)
next
  case False
  then show ?thesis by (auto simp: array_get_def)
qed

lemma InvalidCorpus_neq_InvalidRun: "InvalidCorpus \<noteq> InvalidRun"
  by (simp add: InvalidCorpus_def InvalidRun_def)

lemma Invalid_neq_TypeError [simp]:
  "InvalidCorpus \<noteq> TypeError" "InvalidRun \<noteq> TypeError"
  "TypeError \<noteq> InvalidCorpus" "TypeError \<noteq> InvalidRun"
  by (simp_all add: InvalidCorpus_def InvalidRun_def)

text \<open>What one pass does: it returns on symbols that are written, and throws only at a BigInt.\<close>

lemma add_ngram_Returns:
  assumes "\<forall>x \<in> set paddedRun. writable x"
  shows "\<exists>m'. add_ngram ssize paddedRun m i = Returns m'"
proof -
  let ?e = "or_default (int i + ssize)"
  have "writable (JArr (slice paddedRun (int i) ?e))"
    using assms set_slice [of paddedRun "int i" ?e] by (auto simp: writable_JArr)
  then have k: "createStateKey (JArr (slice paddedRun (int i) ?e)) =
                Returns (state_key (JArr (slice paddedRun (int i) ?e)))"
    by (rule createStateKey_writable)
  have "writable (array_get paddedRun ?e)"
    using assms array_get_cases [of paddedRun ?e] by auto
  then have f: "JSON_stringify (array_get paddedRun ?e) = Returns (JSON_text (array_get paddedRun ?e))"
    by (rule JSON_stringify_writable)
  show ?thesis
    unfolding add_ngram_def Let_def k f by simp
qed

lemma add_ngram_Throws:
  assumes "add_ngram ssize paddedRun m i = Throws e"
  shows "e = TypeError \<and> (\<exists>x \<in> set paddedRun. has_bigint x)"
proof -
  let ?e = "or_default (int i + ssize)"
  from assms consider
      "createStateKey (JArr (slice paddedRun (int i) ?e)) = Throws e"
    | "JSON_stringify (array_get paddedRun ?e) = Throws e"
    unfolding add_ngram_def Let_def and_then_Throws_iff by auto
  then show ?thesis
  proof cases
    case 1
    then have "has_bigint (JArr (slice paddedRun (int i) ?e))" "e = TypeError"
      by (simp_all add: createStateKey_Throws_iff)
    then show ?thesis using set_slice [of paddedRun "int i" ?e] by auto
  next
    case 2
    then have b: "has_bigint (array_get paddedRun ?e)" and e: "e = TypeError"
      by (simp_all add: JSON_stringify_Throws_iff)
    from b have "array_get paddedRun ?e \<noteq> JUndefined" by auto
    then have "array_get paddedRun ?e \<in> set paddedRun"
      using array_get_cases [of paddedRun ?e] by simp
    then show ?thesis using b e by auto
  qed
qed

lemma add_ngrams_Returns:
  assumes "\<forall>x \<in> set paddedRun. writable x"
  shows "\<exists>m'. add_ngrams ssize paddedRun m js = Returns m'"
proof (induction js arbitrary: m)
  case Nil
  show ?case by simp
next
  case (Cons i js)
  from add_ngram_Returns [OF assms] obtain m1 where "add_ngram ssize paddedRun m i = Returns m1"
    by blast
  then show ?case using Cons.IH [of m1] by simp
qed

lemma add_ngrams_Throws:
  "add_ngrams ssize paddedRun m js = Throws e \<Longrightarrow>
   e = TypeError \<and> (\<exists>x \<in> set paddedRun. has_bigint x)"
proof (induction js arbitrary: m)
  case Nil
  then show ?case by simp
next
  case (Cons i js)
  from Cons.prems consider "add_ngram ssize paddedRun m i = Throws e"
    | m1 where "add_ngrams ssize paddedRun m1 js = Throws e"
    by (auto split: outcome.splits)
  then show ?case
  proof cases
    case 1
    then show ?thesis by (rule add_ngram_Throws)
  next
    case 2
    then show ?thesis by (rule Cons.IH)
  qed
qed

lemma begin_state_writable: "\<forall>x \<in> set (createBeginState k). writable x \<and> \<not> has_bigint x"
  by (simp add: createBeginState_def)

lemma add_run_Returns:
  assumes "\<forall>x \<in> set run. writable x"
  shows "\<exists>m'. add_run ssize (createBeginState k) m run = Returns m'"
proof -
  have "\<forall>x \<in> set (createBeginState k @ run @ [JStr END]). writable x"
    using assms begin_state_writable [of k] by auto
  then show ?thesis unfolding add_run_def Let_def by (rule add_ngrams_Returns)
qed

lemma add_run_Throws:
  assumes "add_run ssize (createBeginState k) m run = Throws e"
  shows "e = TypeError \<and> (\<exists>x \<in> set run. has_bigint x)"
proof -
  from assms have "e = TypeError \<and> (\<exists>x \<in> set (createBeginState k @ run @ [JStr END]). has_bigint x)"
    unfolding add_run_def Let_def by (rule add_ngrams_Throws)
  then show ?thesis using begin_state_writable [of k] by auto
qed

lemma build_runs_Throws:
  "build_runs ssize (createBeginState k) m runs = Throws e \<Longrightarrow>
   (e = InvalidRun \<and> (\<exists>run \<in> set runs. \<not> is_array run)) \<or>
   (e = TypeError \<and> (\<exists>run \<in> set runs. \<exists>x \<in> set (array_elements run). has_bigint x))"
proof (induction runs arbitrary: m)
  case Nil
  then show ?case by simp
next
  case (Cons run runs)
  show ?case
  proof (cases "is_array run")
    case False
    then have "build_runs ssize (createBeginState k) m (run # runs) = Throws InvalidRun"
      by (cases run) simp_all
    then show ?thesis using Cons.prems False by simp
  next
    case True
    then obtain syms where run: "run = JArr syms" by (cases run) simp_all
    from Cons.prems consider "add_run ssize (createBeginState k) m syms = Throws e"
      | m1 where "build_runs ssize (createBeginState k) m1 runs = Throws e"
      by (auto simp: run split: outcome.splits)
    then show ?thesis
    proof cases
      case 1
      then have "e = TypeError \<and> (\<exists>x \<in> set syms. has_bigint x)" by (rule add_run_Throws)
      then show ?thesis by (simp add: run)
    next
      case 2
      then have "(e = InvalidRun \<and> (\<exists>run \<in> set runs. \<not> is_array run)) \<or>
        (e = TypeError \<and> (\<exists>run \<in> set runs. \<exists>x \<in> set (array_elements run). has_bigint x))"
        by (rule Cons.IH)
      then show ?thesis by auto
    qed
  qed
qed

lemma build_runs_writable:
  assumes "\<forall>run \<in> set runs. \<forall>x \<in> set (array_elements run). writable x"
  shows "(list_all is_array runs \<longrightarrow> (\<exists>m'. build_runs ssize (createBeginState k) m runs = Returns m')) \<and>
         (\<not> list_all is_array runs \<longrightarrow> build_runs ssize (createBeginState k) m runs = Throws InvalidRun)"
  using assms
proof (induction runs arbitrary: m)
  case Nil
  show ?case by simp
next
  case (Cons run runs)
  show ?case
  proof (cases "is_array run")
    case False
    then have "build_runs ssize (createBeginState k) m (run # runs) = Throws InvalidRun"
      by (cases run) simp_all
    then show ?thesis using False by simp
  next
    case True
    then obtain syms where run: "run = JArr syms" by (cases run) simp_all
    have "\<forall>x \<in> set syms. writable x" using Cons.prems by (simp add: run)
    from add_run_Returns [OF this] obtain m1 where
      m1: "add_run ssize (createBeginState k) m syms = Returns m1" by blast
    have rest: "\<forall>run \<in> set runs. \<forall>x \<in> set (array_elements run). writable x"
      using Cons.prems by simp
    have step: "build_runs ssize (createBeginState k) m (run # runs) =
                build_runs ssize (createBeginState k) m1 runs"
      by (simp add: run m1)
    show ?thesis
      unfolding step using Cons.IH [OF rest, of m1] by (simp add: run)
  qed
qed

lemma set_corpus_symbols:
  "set (corpus_symbols (JArr runs)) = (\<Union>run \<in> set runs. set (array_elements run))"
  by (simp add: corpus_symbols_def)

text \<open>
  C6, as the claim states it, fails: \<^verbatim>\<open>build\<close> has a third way to fail. The symbols are
  not validated but they are passed to \<^verbatim>\<open>JSON.stringify\<close>, which throws a TypeError on
  the corpus \<^verbatim>\<open>[[10n]]\<close>, an array of arrays.
\<close>

theorem build_throws_on_bigint:
  "build (JArr [JArr [JBigInt 10]]) 1 = Throws TypeError \<and>
   is_array (JArr [JArr [JBigInt 10]]) \<and> list_all is_array (array_elements (JArr [JArr [JBigInt 10]])) \<and>
   TypeError \<noteq> InvalidCorpus \<and> TypeError \<noteq> InvalidRun"
  by code_simp

text \<open>
  C6, amended. \<^verbatim>\<open>build\<close> throws the corpus error exactly when the corpus is not an array.
  Its only other errors are the run error, which needs an element of the corpus that is
  not an array, and the TypeError of \<^verbatim>\<open>JSON.stringify\<close>, which needs a symbol that holds a
  BigInt. When \<^verbatim>\<open>JSON.stringify\<close> writes every symbol, \<^verbatim>\<open>build\<close> throws the run error
  exactly when the corpus is an array with an element that is not an array, and returns a
  table exactly when the corpus is an array of arrays. A call that throws returns no
  table: the result is either an error or a table.
\<close>

theorem build_fails_only_on_non_arrays:
  "(build corpus n = Throws InvalidCorpus \<longleftrightarrow> \<not> is_array corpus) \<and>
   (\<forall>e. build corpus n = Throws e \<longrightarrow> e = InvalidCorpus \<or> e = InvalidRun \<or> e = TypeError) \<and>
   (build corpus n = Throws InvalidRun \<longrightarrow>
      is_array corpus \<and> (\<exists>run \<in> set (array_elements corpus). \<not> is_array run)) \<and>
   (build corpus n = Throws TypeError \<longrightarrow>
      is_array corpus \<and> (\<exists>x \<in> set (corpus_symbols corpus). has_bigint x)) \<and>
   ((\<forall>x \<in> set (corpus_symbols corpus). writable x) \<longrightarrow>
      (build corpus n = Throws InvalidRun \<longleftrightarrow>
         is_array corpus \<and> (\<exists>run \<in> set (array_elements corpus). \<not> is_array run)) \<and>
      ((\<exists>m. build corpus n = Returns m) \<longleftrightarrow>
         is_array corpus \<and> (\<forall>run \<in> set (array_elements corpus). is_array run)))"
proof (cases corpus)
  case (JArr runs)
  let ?b = "build_runs n (createBeginState (or_default n)) [] runs"
  have b: "build corpus n = ?b" by (simp add: JArr build_def)
  have thr: "(e = InvalidRun \<and> (\<exists>run \<in> set runs. \<not> is_array run)) \<or>
     (e = TypeError \<and> (\<exists>x \<in> set (corpus_symbols corpus). has_bigint x))" if "?b = Throws e" for e
    using build_runs_Throws [OF that] by (auto simp: JArr set_corpus_symbols)
  have wr: "(list_all is_array runs \<longrightarrow> (\<exists>m'. ?b = Returns m')) \<and>
            (\<not> list_all is_array runs \<longrightarrow> ?b = Throws InvalidRun)"
    if "\<forall>x \<in> set (corpus_symbols corpus). writable x"
    using that by (intro build_runs_writable) (auto simp: JArr set_corpus_symbols)
  have 1: "build corpus n = Throws InvalidCorpus \<longleftrightarrow> \<not> is_array corpus"
    using thr [of InvalidCorpus] InvalidCorpus_neq_InvalidRun unfolding b by (auto simp: JArr)
  have 2: "\<forall>e. build corpus n = Throws e \<longrightarrow> e = InvalidCorpus \<or> e = InvalidRun \<or> e = TypeError"
    using thr unfolding b by auto
  have 3: "build corpus n = Throws InvalidRun \<longrightarrow>
      is_array corpus \<and> (\<exists>run \<in> set (array_elements corpus). \<not> is_array run)"
    using thr [of InvalidRun] unfolding b by (auto simp: JArr)
  have 4: "build corpus n = Throws TypeError \<longrightarrow>
      is_array corpus \<and> (\<exists>x \<in> set (corpus_symbols corpus). has_bigint x)"
    using thr [of TypeError] unfolding b by (auto simp: JArr)
  have 5: "(build corpus n = Throws InvalidRun \<longleftrightarrow>
         is_array corpus \<and> (\<exists>run \<in> set (array_elements corpus). \<not> is_array run)) \<and>
      ((\<exists>m. build corpus n = Returns m) \<longleftrightarrow>
         is_array corpus \<and> (\<forall>run \<in> set (array_elements corpus). is_array run))"
    if w: "\<forall>x \<in> set (corpus_symbols corpus). writable x"
  proof (cases "list_all is_array runs")
    case True
    then obtain m' where "?b = Returns m'" using wr [OF w] by blast
    then show ?thesis using True unfolding b by (auto simp: JArr list_all_iff)
  next
    case False
    then have "?b = Throws InvalidRun" using wr [OF w] by blast
    then show ?thesis using False unfolding b by (auto simp: JArr list_all_iff)
  qed
  show ?thesis using 1 2 3 4 5 by blast
qed (simp_all add: build_def corpus_symbols_def InvalidCorpus_neq_InvalidRun)

theorem build_fails_only_on_non_arrays_witness:
  "build (JNum 5) 1 = Throws InvalidCorpus \<and>
   build (JArr [JArr [JStr ''a''], JStr ''b'']) 1 = Throws InvalidRun \<and>
   (\<exists>m. build (JArr [JArr [JStr ''a''], JArr [JNum 7, JNull]]) 1 = Returns m)"
proof -
  have w: "\<forall>x \<in> set (corpus_symbols (JArr [JArr [JStr ''a''], JStr ''b''])). writable x"
    "\<forall>x \<in> set (corpus_symbols (JArr [JArr [JStr ''a''], JArr [JNum 7, JNull]])). writable x"
    by (simp_all add: corpus_symbols_def safe_integer_def)
  show ?thesis
    using build_fails_only_on_non_arrays [of "JNum 5" 1]
      build_fails_only_on_non_arrays [of "JArr [JArr [JStr ''a''], JStr ''b'']" 1]
      build_fails_only_on_non_arrays [of "JArr [JArr [JStr ''a''], JArr [JNum 7, JNull]]" 1]
      w
    by simp
qed

lemma obj_get_update:
  "obj_get (obj_update obj k v) k' = (if k' = k \<and> obj_get obj k \<noteq> None then Some v else obj_get obj k')"
  by (induction obj) (auto simp: obj_get_def)

lemma obj_get_Nil: "obj_get [] k = None"
  by (simp add: obj_get_def)

lemma obj_get_insert_index:
  "obj_get obj k = None \<Longrightarrow>
   obj_get (obj_insert_index obj i k v) k' = (if k' = k then Some v else obj_get obj k')"
  by (induction obj) (auto simp: obj_get_def split: option.splits if_splits)

lemma obj_get_append:
  "obj_get obj k = None \<Longrightarrow> obj_get (obj @ [(k, v)]) k' = (if k' = k then Some v else obj_get obj k')"
  by (auto simp: obj_get_def map_add_def split: option.splits)

lemma obj_get_set:
  "obj_get (obj_set obj k v) k' = (if k' = k then Some v else obj_get obj k')"
proof (cases "obj_get obj k")
  case None
  then show ?thesis
    by (cases "array_index k") (simp_all add: obj_set_def obj_get_insert_index obj_get_append)
next
  case (Some a)
  then show ?thesis by (simp add: obj_set_def obj_get_update)
qed

lemma lookup_count_window:
  "lookup_follow (count_window m w) sk fk =
     (if (sk, fk) = window_texts w
      then Some (case lookup_follow m sk fk of
                   None \<Rightarrow> \<lparr>value = snd w, count = 1\<rparr>
                 | Some r \<Rightarrow> r\<lparr>count := count r + 1\<rparr>)
      else lookup_follow m sk fk)"
  by (auto simp: lookup_follow_def count_window_def window_texts_def Let_def obj_get_set obj_get_Nil
           split: option.splits)

lemma slice_window:
  "0 < n \<Longrightarrow> slice xs (int i) (or_default (int i + int n)) = take n (drop i xs)"
  by (auto simp: slice_def or_default_def Let_def min_def nat_diff_distrib' nat_add_distrib)

text \<open>
  A pass of \<^verbatim>\<open>build\<close> that returns has counted its window, and \<^verbatim>\<open>JSON.stringify\<close> has
  written the state and the follow symbol of the window.
\<close>

lemma add_ngram_window:
  assumes "0 < n" "i \<le> length run"
    and "add_ngram (int n) (padded_run n run) m i = Returns m'"
  shows "m' = count_window m (windows_of_run n run ! i) \<and>
         writable (JArr (fst (windows_of_run n run ! i))) \<and> writable (snd (windows_of_run n run ! i))"
proof -
  have len: "length (padded_run n run) = n + length run + 1"
    by (simp add: padded_run_def)
  have nz: "or_default (int i + int n) = int i + int n"
    using assms by (simp add: or_default_def)
  have sl: "slice (padded_run n run) (int i) (int i + int n) = take n (drop i (padded_run n run))"
    using slice_window [OF assms(1), of "padded_run n run" i] nz by simp
  have "nat (int i + int n) = i + n" by (simp add: nat_add_distrib)
  then have ag: "array_get (padded_run n run) (int i + int n) = padded_run n run ! (i + n)"
    using assms len unfolding array_get_def by simp
  have w: "windows_of_run n run ! i = (take n (drop i (padded_run n run)), padded_run n run ! (i + n))"
    using assms(2) unfolding windows_of_run_def
    by (subst nth_map) (simp_all del: upt_Suc)
  let ?s = "JArr (take n (drop i (padded_run n run)))" and ?f = "padded_run n run ! (i + n)"
  have shape: "add_ngram (int n) (padded_run n run) m i =
      and_then (createStateKey ?s) (\<lambda>sk. and_then (JSON_stringify ?f) (\<lambda>t. Returns (g sk t)))"
    if "g = (\<lambda>stateKey t.
          let follow = ?f;
              m1 = (if obj_get m stateKey = None then obj_set m stateKey [] else m);
              followKey = key_of t;
              fs = (case obj_get m1 stateKey of None \<Rightarrow> [] | Some fs \<Rightarrow> fs);
              fs1 = (if obj_get fs followKey = None
                     then obj_set fs followKey \<lparr>value = follow, count = 0\<rparr> else fs);
              fs2 = (case obj_get fs1 followKey of None \<Rightarrow> fs1
                     | Some r \<Rightarrow> obj_set fs1 followKey (r\<lparr>count := count r + 1\<rparr>))
          in obj_set m1 stateKey fs2)" for g
    unfolding add_ngram_def that by (simp only: nz sl ag Let_def)
  define g where "g = (\<lambda>stateKey t.
          let follow = ?f;
              m1 = (if obj_get m stateKey = None then obj_set m stateKey [] else m);
              followKey = key_of t;
              fs = (case obj_get m1 stateKey of None \<Rightarrow> [] | Some fs \<Rightarrow> fs);
              fs1 = (if obj_get fs followKey = None
                     then obj_set fs followKey \<lparr>value = follow, count = 0\<rparr> else fs);
              fs2 = (case obj_get fs1 followKey of None \<Rightarrow> fs1
                     | Some r \<Rightarrow> obj_set fs1 followKey (r\<lparr>count := count r + 1\<rparr>))
          in obj_set m1 stateKey fs2)"
  note sh = shape [OF g_def]
  have cw: "g (state_key ?s) (JSON_text ?f) = count_window m (take n (drop i (padded_run n run)), ?f)"
    unfolding g_def count_window_def by (simp only: Let_def fst_conv snd_conv)
  from assms(3) have "\<exists>sk t. createStateKey ?s = Returns sk \<and> JSON_stringify ?f = Returns t \<and>
      Returns (g sk t) = Returns m'"
    unfolding sh and_then_Returns_iff by auto
  then obtain sk t where sk: "createStateKey ?s = Returns sk"
    and t: "JSON_stringify ?f = Returns t" and r2: "Returns (g sk t) = Returns m'"
    by blast
  have sk': "writable ?s" "sk = state_key ?s" using sk by (simp_all add: createStateKey_Returns_iff)
  have t': "writable ?f" "t = JSON_text ?f" using t by (simp_all add: JSON_stringify_Returns_iff)
  have "m' = count_window m (take n (drop i (padded_run n run)), ?f)"
    using r2 unfolding sk'(2) t'(2) cw by simp
  then show ?thesis using sk'(1) t'(1) by (simp only: w fst_conv snd_conv simp_thms)
qed

lemma add_ngrams_windows:
  assumes "0 < n" "\<forall>i \<in> set js. i \<le> length run"
    and "add_ngrams (int n) (padded_run n run) m js = Returns m'"
  shows "m' = foldl count_window m (map (\<lambda>i. windows_of_run n run ! i) js) \<and>
         (\<forall>i \<in> set js. writable (snd (windows_of_run n run ! i)))"
  using assms(2,3)
proof (induction js arbitrary: m)
  case Nil
  then show ?case by simp
next
  case (Cons i js)
  from Cons.prems(2) obtain m1 where m1: "add_ngram (int n) (padded_run n run) m i = Returns m1"
    and rest: "add_ngrams (int n) (padded_run n run) m1 js = Returns m'"
    by (auto split: outcome.splits)
  have i: "i \<le> length run" using Cons.prems(1) by simp
  note a = add_ngram_window [OF assms(1) i m1]
  have "\<forall>i \<in> set js. i \<le> length run" using Cons.prems(1) by simp
  from Cons.IH [OF this rest] have
    "m' = foldl count_window m1 (map (\<lambda>i. windows_of_run n run ! i) js)"
    "\<forall>i \<in> set js. writable (snd (windows_of_run n run ! i))"
    by simp_all
  moreover from a have "m1 = count_window m (windows_of_run n run ! i)"
    "writable (snd (windows_of_run n run ! i))" by simp_all
  ultimately show ?case by simp
qed

lemma windows_of_run_nth:
  "map (\<lambda>i. windows_of_run n run ! i) [0 ..< length run + 1] = windows_of_run n run"
  by (rule trans [OF _ map_nth [of "windows_of_run n run"]]) (simp add: windows_of_run_def)

lemma follow_of_window:
  assumes "i < length run"
  shows "snd (windows_of_run n run ! i) = run ! i"
proof -
  have "windows_of_run n run ! i = (take n (drop i (padded_run n run)), padded_run n run ! (i + n))"
    using assms unfolding windows_of_run_def by (subst nth_map) (simp_all del: upt_Suc)
  moreover have "padded_run n run ! (i + n) = run ! i"
    using assms by (simp add: padded_run_def nth_append)
  ultimately show ?thesis by simp
qed

lemma begin_padding: "0 < n \<Longrightarrow> createBeginState (or_default (int n)) @ run @ [JStr END] = padded_run n run"
  by (simp add: createBeginState_def or_default_def padded_run_def)

lemma add_run_windows:
  assumes "0 < n"
    and "add_run (int n) (createBeginState (or_default (int n))) m run = Returns m'"
  shows "m' = foldl count_window m (windows_of_run n run) \<and> (\<forall>x \<in> set run. writable x)"
proof -
  from assms(2) have r: "add_ngrams (int n) (padded_run n run) m [0 ..< length run + 1] = Returns m'"
    unfolding add_run_def Let_def begin_padding [OF assms(1)] .
  have "\<forall>i \<in> set [0 ..< length run + 1]. i \<le> length run" by auto
  note a = add_ngrams_windows [OF assms(1) this r]
  have "writable x" if "x \<in> set run" for x
  proof -
    from that obtain i where i: "i < length run" "x = run ! i" by (auto simp: in_set_conv_nth)
    then have "writable (snd (windows_of_run n run ! i))" using a by simp
    then show ?thesis using i by (simp add: follow_of_window)
  qed
  moreover have "m' = foldl count_window m (windows_of_run n run)"
    using a unfolding windows_of_run_nth by simp
  ultimately show ?thesis by simp
qed

lemma build_runs_windows:
  assumes "0 < n"
    and "build_runs (int n) (createBeginState (or_default (int n))) m (map JArr runs) = Returns m'"
  shows "m' = foldl count_window m (windows n runs) \<and> (\<forall>run \<in> set runs. \<forall>x \<in> set run. writable x)"
  using assms(2)
proof (induction runs arbitrary: m)
  case Nil
  then show ?case by (simp add: windows_def)
next
  case (Cons run runs)
  from Cons.prems obtain m1 where
    m1: "add_run (int n) (createBeginState (or_default (int n))) m run = Returns m1"
    and rest: "build_runs (int n) (createBeginState (or_default (int n))) m1 (map JArr runs) = Returns m'"
    by (auto split: outcome.splits)
  from add_run_windows [OF assms(1) m1] have
    "m1 = foldl count_window m (windows_of_run n run)" "\<forall>x \<in> set run. writable x"
    by simp_all
  moreover from Cons.IH [OF rest] have
    "m' = foldl count_window m1 (windows n runs)" "\<forall>run \<in> set runs. \<forall>x \<in> set run. writable x"
    by simp_all
  ultimately show ?case by (simp add: windows_def)
qed

lemma build_windows:
  assumes "0 < n" "build (JArr (map JArr runs)) (int n) = Returns m"
  shows "m = foldl count_window [] (windows n runs) \<and> (\<forall>run \<in> set runs. \<forall>x \<in> set run. writable x)"
proof -
  from assms(2) have "build_runs (int n) (createBeginState (or_default (int n))) [] (map JArr runs) = Returns m"
    by (simp add: build_def)
  then show ?thesis by (rule build_runs_windows [OF assms(1)])
qed

lemma build_writable:
  assumes "0 < n" "\<forall>run \<in> set runs. \<forall>x \<in> set run. writable x"
  shows "build (JArr (map JArr runs)) (int n) = Returns (foldl count_window [] (windows n runs))"
proof -
  have "\<forall>run \<in> set (map JArr runs). \<forall>x \<in> set (array_elements run). writable x"
    using assms(2) by auto
  moreover have "list_all is_array (map JArr runs)" by (simp add: list_all_iff)
  ultimately obtain m where
    m: "build_runs (int n) (createBeginState (or_default (int n))) [] (map JArr runs) = Returns m"
    using build_runs_writable by blast
  then have "build (JArr (map JArr runs)) (int n) = Returns m" by (simp add: build_def)
  then show ?thesis using build_windows [OF assms(1)] by blast
qed

lemma lookup_foldl_count_window:
  "lookup_follow (foldl count_window m ws) sk fk =
     (let k = length (filter (\<lambda>w. window_texts w = (sk, fk)) ws) in
      if k = 0 then lookup_follow m sk fk
      else Some (case lookup_follow m sk fk of
                   None \<Rightarrow> \<lparr>value = snd (hd (filter (\<lambda>w. window_texts w = (sk, fk)) ws)), count = int k\<rparr>
                 | Some r \<Rightarrow> r\<lparr>count := count r + int k\<rparr>))"
proof (induction ws arbitrary: m)
  case Nil
  show ?case by simp
next
  case (Cons w ws)
  show ?case
    by (auto simp: Cons.IH lookup_count_window Let_def split: option.splits)
qed

lemma build_scenario: "build (JArr (map JArr scenario_corpus)) 2 = Returns scenario_table"
  by code_simp

section \<open>Properties of the constructor\<close>

lemma state_size_of_falsy: "state_size_of (JNum 0) = Some DEFAULT_STATE_SIZE" "state_size_of JUndefined = Some DEFAULT_STATE_SIZE"
  by (simp_all add: state_size_of_def)

lemma as_follow_js: "as_follow (follow_js r) = Some r"
  by (simp add: as_follow_def follow_js_def obj_get_def)

lemma as_follow_set_js: "as_follow_set (JObj (map (\<lambda>(fk, r). (fk, follow_js r)) fs)) = Some fs"
  by (induction fs) (auto simp: as_follow_set_def as_follow_js)

lemma as_table_js: "as_table (table_js m) = Some m"
  by (induction m) (auto simp: as_table_def table_js_def as_follow_set_js)

lemma Chain_new_stateSize:
  assumes "Chain_new x opt = Returns c" "state_size_of opt = Some n"
  shows "stateSize c = n"
proof (cases "\<exists>ps. x = JObj ps")
  case True
  then show ?thesis
    using assms by (auto simp: Chain_new_def split: option.splits)
next
  case False
  then have "Chain_new x opt = and_then (build x n) (\<lambda>m. Returns \<lparr>stateSize = n, model = m\<rparr>)"
    using assms(2) by (cases x) (simp_all add: Chain_new_def)
  with assms(1) have "and_then (build x n) (\<lambda>m. Returns \<lparr>stateSize = n, model = m\<rparr>) = Returns c"
    by simp
  then show ?thesis by (auto simp: and_then_Returns_iff)
qed

text \<open>
  C10. The constructor takes \<^verbatim>\<open>stateSize: 0\<close> for a missing option: with any first argument
  it does exactly what it does when the option is omitted, and a chain it returns has the
  state size \<^verbatim>\<open>DEFAULT_STATE_SIZE\<close>, which is \<open>1\<close>. It returns a chain whenever the first
  argument is an array of arrays of symbols that \<^verbatim>\<open>JSON.stringify\<close> writes, or the object
  of a table.
\<close>

theorem zero_state_size_is_default:
  "Chain_new x (JNum 0) = Chain_new x JUndefined \<and>
   (\<forall>c. Chain_new x (JNum 0) = Returns c \<longrightarrow> stateSize c = DEFAULT_STATE_SIZE) \<and>
   ((valid_corpus x \<and> (\<forall>s \<in> set (corpus_symbols x). writable s)) \<or> (\<exists>m. x = table_js m) \<longrightarrow>
      (\<exists>c. Chain_new x (JNum 0) = Returns c)) \<and>
   DEFAULT_STATE_SIZE = 1"
proof (intro conjI allI impI)
  show "Chain_new x (JNum 0) = Chain_new x JUndefined"
    by (simp add: Chain_new_def state_size_of_falsy)
  show "stateSize c = DEFAULT_STATE_SIZE" if "Chain_new x (JNum 0) = Returns c" for c
    using that state_size_of_falsy(1) by (rule Chain_new_stateSize)
  show "\<exists>c. Chain_new x (JNum 0) = Returns c"
    if "(valid_corpus x \<and> (\<forall>s \<in> set (corpus_symbols x). writable s)) \<or> (\<exists>m. x = table_js m)"
    using that
  proof
    assume v: "valid_corpus x \<and> (\<forall>s \<in> set (corpus_symbols x). writable s)"
    then obtain runs where x: "x = JArr runs" "list_all is_array runs"
      by (cases x) (simp_all add: valid_corpus_def)
    have "\<forall>run \<in> set runs. \<forall>s \<in> set (array_elements run). writable s"
      using v by (simp add: x set_corpus_symbols)
    then obtain m where
      "build_runs DEFAULT_STATE_SIZE (createBeginState (or_default DEFAULT_STATE_SIZE)) [] runs = Returns m"
      using build_runs_writable x(2) by blast
    then have "build x DEFAULT_STATE_SIZE = Returns m" by (simp add: x build_def)
    then show ?thesis
      by (simp add: x Chain_new_def state_size_of_falsy)
  next
    assume "\<exists>m. x = table_js m"
    then obtain m where m: "x = table_js m" ..
    have "\<exists>ps. table_js m = JObj ps" by (simp add: table_js_def)
    then show ?thesis
      using m as_table_js [of m] by (auto simp: Chain_new_def state_size_of_falsy)
  qed
  show "DEFAULT_STATE_SIZE = 1" by (simp add: DEFAULT_STATE_SIZE_def)
qed

theorem zero_state_size_is_default_witness:
  "\<exists>c. Chain_new (JArr [JArr [JStr ''a'', JStr ''b'']]) (JNum 0) = Returns c \<and> stateSize c = 1 \<and>
       Chain_new (JArr [JArr [JStr ''a'', JStr ''b'']]) JUndefined = Returns c"
proof -
  let ?x = "JArr [JArr [JStr ''a'', JStr ''b'']]"
  have v: "valid_corpus ?x \<and> (\<forall>s \<in> set (corpus_symbols ?x). writable s)"
    by (simp add: valid_corpus_def corpus_symbols_def)
  note z = zero_state_size_is_default [of ?x]
  from z v obtain c where c: "Chain_new ?x (JNum 0) = Returns c" by blast
  with z have "stateSize c = 1" "Chain_new ?x JUndefined = Returns c" by auto
  with c show ?thesis by blast
qed

section \<open>Properties of move\<close>




lemma move_absent:
  assumes "createStateKey s = Returns k" "obj_get (model c) k = None"
  shows "move c r s = Returns JUndefined"
  using assms by (simp add: move_def)

lemma move_present:
  assumes "createStateKey s = Returns k" "obj_get (model c) k = Some fs"
  shows "move c r s =
     Returns (array_get (map (\<lambda>(key, r). value r) fs)
       (int (scan_index r (cumulative 0 (map (\<lambda>(key, r). count r) fs)) 0)))"
  using assms by (simp add: move_def Let_def)


lemma array_get_nth: "i < length xs \<Longrightarrow> array_get xs (int i) = xs ! i"
  by (simp add: array_get_def)

lemma move_chosen:
  assumes "createStateKey s = Returns k" "obj_get (model c) k = Some fs"
    and "i = scan_index r (cumulative 0 (map (\<lambda>(key, r). count r) fs)) 0"
    and "i < length fs"
  shows "move c r s = Returns (value (snd (fs ! i)))"
proof -
  have "array_get (map (\<lambda>(key, r). value r) fs) (int i) = map (\<lambda>(key, r). value r) fs ! i"
    using assms(4) by (simp add: array_get_nth)
  also have "\<dots> = value (snd (fs ! i))"
    using assms(4) by (simp add: split_def)
  finally show ?thesis
    using move_present [OF assms(1,2), of r] unfolding assms(3) by simp
qed








lemma Chain_new_scenario:
  "Chain_new (JArr (map JArr scenario_corpus)) JUndefined = Returns scenario_chain"
  by code_simp




section \<open>Properties of walk\<close>

lemma slide_window:
  assumes "s \<noteq> []"
  shows "drop i ((tl s @ [x]) @ take i new) = drop (Suc i) (s @ take (Suc i) (x # new))"
proof -
  obtain y ys where "s = y # ys" using assms by (cases s) auto
  then show ?thesis by simp
qed

lemma move_value:
  assumes "move c r s = Returns x"
  shows "x = JUndefined \<or> x \<in> table_values (model c)"
proof -
  from assms obtain k where k: "createStateKey s = Returns k"
    by (cases "createStateKey s") (simp_all add: move_def)
  show ?thesis
  proof (cases "obj_get (model c) k")
    case None
    then show ?thesis using move_absent [OF k, of c r] assms by simp
  next
    case (Some fs)
    let ?i = "scan_index r (cumulative 0 (map (\<lambda>(key, r). count r) fs)) 0"
    show ?thesis
    proof (cases "?i < length fs")
      case True
      then have "move c r s = Returns (value (snd (fs ! ?i)))"
        using k Some by (intro move_chosen [of s k]) simp_all
      then have x: "x = value (snd (fs ! ?i))" using assms by simp
      have "(fst (fs ! ?i), snd (fs ! ?i)) \<in> set fs" using True by simp
      moreover have "(k, fs) \<in> set (model c)" using Some by (simp add: obj_get_def map_of_SomeD)
      ultimately show ?thesis unfolding table_values_def x by blast
    next
      case False
      then show ?thesis using move_present [OF k Some, of r] assms by (simp add: array_get_def)
    qed
  qed
qed

lemma move_writable:
  assumes "writable s"
  shows "\<exists>x. move c r s = Returns x"
proof -
  have k: "createStateKey s = Returns (state_key s)" using assms by (rule createStateKey_writable)
  show ?thesis
  proof (cases "obj_get (model c) (state_key s)")
    case None
    then show ?thesis using move_absent [OF k, of c r] by simp
  next
    case (Some fs)
    then show ?thesis using move_present [OF k Some, of r] by simp
  qed
qed

text \<open>
  The course of the loop, when \<^verbatim>\<open>JSON.stringify\<close> writes the symbols of the state array
  and the values of the model: it returns, and what it returns is the trace of its moves.
\<close>

lemma walk_loop_trace:
  assumes "walk_loop c a h steps0 draws = Some (res, h')" and "cells h a \<noteq> []"
    and "\<forall>x \<in> set (cells h a). writable x" and "\<forall>x \<in> table_values (model c). writable x"
  shows "\<exists>new. res = Returns (steps0 @ new) \<and> length new \<le> length draws \<and>
     (\<forall>i < length new. move c (draws ! i) (JArr (state_at (cells h a) new i)) = Returns (new ! i) \<and>
        new ! i \<noteq> JUndefined \<and> new ! i \<noteq> JStr END) \<and>
     stops_at c draws (state_at (cells h a) new (length new)) (length new) \<and>
     cells h' = (cells h)(a := state_at (cells h a) new (length new)) \<and>
     next_free h' = next_free h"
  using assms(1,2,3)
proof (induction draws arbitrary: h steps0)
  case Nil
  have k: "createStateKey (JArr (cells h a)) = Returns (state_key (JArr (cells h a)))"
    using Nil.prems(3) by (intro createStateKey_writable) (simp add: writable_JArr)
  from Nil.prems(1) have "res = Returns steps0" "h' = h"
    "obj_get (model c) (state_key (JArr (cells h a))) = None"
    unfolding walk_loop.simps k by (auto split: if_splits)
  then show ?case
    using k by (intro exI [of _ "[]"]) (simp add: state_at_def stops_at_def)
next
  case (Cons u us)
  let ?s = "cells h a"
  have ws: "writable (JArr ?s)" using Cons.prems(3) by (simp add: writable_JArr)
  from move_writable [OF ws] obtain step where step: "move c u (JArr ?s) = Returns step" by blast
  show ?case
  proof (cases "step = JUndefined \<or> step = JStr END")
    case True
    with Cons.prems(1) have "res = Returns steps0" "h' = h" by (auto simp: step)
    with True step show ?thesis
      by (intro exI [of _ "[]"]) (auto simp: state_at_def stops_at_def)
  next
    case False
    let ?h1 = "h\<lparr>cells := (cells h)(a := tl ?s @ [step])\<rparr>"
    from False Cons.prems(1)
    have run: "walk_loop c a ?h1 (steps0 @ [step]) us = Some (res, h')"
      by (simp add: step)
    have s1: "cells ?h1 a = tl ?s @ [step]" by simp
    have ne: "cells ?h1 a \<noteq> []" by simp
    have "step \<in> table_values (model c)" using move_value [OF step] False by simp
    then have wstep: "writable step" using assms(4) by simp
    have "set (tl ?s) \<subseteq> set ?s" by (cases ?s) auto
    then have w1: "\<forall>x \<in> set (cells ?h1 a). writable x"
      using Cons.prems(3) wstep unfolding s1 by auto
    from Cons.IH [OF run ne w1]
    obtain new where new: "res = Returns ((steps0 @ [step]) @ new)" "length new \<le> length us"
      and tr0: "\<forall>i < length new. move c (us ! i) (JArr (state_at (cells ?h1 a) new i)) = Returns (new ! i) \<and>
                 new ! i \<noteq> JUndefined \<and> new ! i \<noteq> JStr END"
      and st0: "stops_at c us (state_at (cells ?h1 a) new (length new)) (length new)"
      and ce0: "cells h' = (cells ?h1)(a := state_at (cells ?h1 a) new (length new))"
      and nf0: "next_free h' = next_free ?h1"
      by blast
    have tr: "\<forall>i < length new. move c (us ! i) (JArr (state_at (tl ?s @ [step]) new i)) = Returns (new ! i) \<and>
                 new ! i \<noteq> JUndefined \<and> new ! i \<noteq> JStr END"
      using tr0 unfolding s1 .
    have st: "stops_at c us (state_at (tl ?s @ [step]) new (length new)) (length new)"
      using st0 unfolding s1 .
    have ce: "cells h' = (cells h)(a := state_at (tl ?s @ [step]) new (length new))"
      using ce0 unfolding s1 by simp
    have nf: "next_free h' = next_free h" using nf0 by simp
    have shift: "state_at (tl ?s @ [step]) new i = state_at ?s (step # new) (Suc i)" for i
      unfolding state_at_def using slide_window [OF Cons.prems(2)] by simp
    have A: "\<forall>i < length (step # new).
            move c ((u # us) ! i) (JArr (state_at ?s (step # new) i)) = Returns ((step # new) ! i) \<and>
            (step # new) ! i \<noteq> JUndefined \<and> (step # new) ! i \<noteq> JStr END"
    proof (intro allI impI)
      fix i assume "i < length (step # new)"
      then show "move c ((u # us) ! i) (JArr (state_at ?s (step # new) i)) = Returns ((step # new) ! i) \<and>
            (step # new) ! i \<noteq> JUndefined \<and> (step # new) ! i \<noteq> JStr END"
      proof (cases i)
        case 0
        then show ?thesis using False step by (simp add: state_at_def)
      next
        case (Suc j)
        with \<open>i < length (step # new)\<close> have "j < length new" by simp
        with tr have "move c (us ! j) (JArr (state_at (tl ?s @ [step]) new j)) = Returns (new ! j) \<and>
                 new ! j \<noteq> JUndefined \<and> new ! j \<noteq> JStr END" by blast
        then show ?thesis unfolding Suc nth_Cons_Suc shift .
      qed
    qed
    have B: "stops_at c (u # us) (state_at ?s (step # new) (length (step # new))) (length (step # new))"
      using st by (simp add: stops_at_def shift)
    have C: "cells h' = (cells h)(a := state_at ?s (step # new) (length (step # new)))"
      using ce by (simp add: shift)
    have S: "res = Returns (steps0 @ (step # new))" using new by simp
    have L: "length (step # new) \<le> length (u # us)" using new by simp
    show ?thesis using S L A B C nf by blast
  qed
qed

lemma walk_loop_None:
  assumes "walk_loop c a h steps0 draws = None" and "cells h a \<noteq> []"
  shows "\<exists>new. length new = length draws \<and>
     (\<forall>i < length new. move c (draws ! i) (JArr (state_at (cells h a) new i)) = Returns (new ! i) \<and>
        new ! i \<noteq> JUndefined \<and> new ! i \<noteq> JStr END) \<and>
     (\<exists>k. createStateKey (JArr (state_at (cells h a) new (length new))) = Returns k \<and>
          obj_get (model c) k \<noteq> None)"
  using assms
proof (induction draws arbitrary: h steps0)
  case Nil
  then show ?case
    by (intro exI [of _ "[]"]) (auto simp: state_at_def split: outcome.splits if_splits)
next
  case (Cons u us)
  let ?s = "cells h a"
  from Cons.prems(1) obtain step where step: "move c u (JArr ?s) = Returns step"
    by (cases "move c u (JArr ?s)") simp_all
  from Cons.prems(1) have ns: "step \<noteq> JUndefined" "step \<noteq> JStr END"
    by (auto simp: step split: if_splits)
  let ?h1 = "h\<lparr>cells := (cells h)(a := tl ?s @ [step])\<rparr>"
  from ns Cons.prems(1) have run: "walk_loop c a ?h1 (steps0 @ [step]) us = None"
    by (simp add: step)
  have s1: "cells ?h1 a = tl ?s @ [step]" by simp
  have ne: "cells ?h1 a \<noteq> []" by simp
  from Cons.IH [OF run ne]
  obtain new where new: "length new = length us"
    and tr0: "\<forall>i < length new. move c (us ! i) (JArr (state_at (cells ?h1 a) new i)) = Returns (new ! i) \<and>
               new ! i \<noteq> JUndefined \<and> new ! i \<noteq> JStr END"
    and pr0: "\<exists>k. createStateKey (JArr (state_at (cells ?h1 a) new (length new))) = Returns k \<and>
          obj_get (model c) k \<noteq> None"
    by blast
  have tr: "\<forall>i < length new. move c (us ! i) (JArr (state_at (tl ?s @ [step]) new i)) = Returns (new ! i) \<and>
               new ! i \<noteq> JUndefined \<and> new ! i \<noteq> JStr END"
    using tr0 unfolding s1 .
  have pr: "\<exists>k. createStateKey (JArr (state_at (tl ?s @ [step]) new (length new))) = Returns k \<and>
          obj_get (model c) k \<noteq> None"
    using pr0 unfolding s1 .
  have shift: "state_at (tl ?s @ [step]) new i = state_at ?s (step # new) (Suc i)" for i
    unfolding state_at_def using slide_window [OF Cons.prems(2)] by simp
  have A: "\<forall>i < length (step # new).
          move c ((u # us) ! i) (JArr (state_at ?s (step # new) i)) = Returns ((step # new) ! i) \<and>
          (step # new) ! i \<noteq> JUndefined \<and> (step # new) ! i \<noteq> JStr END"
  proof (intro allI impI)
    fix i assume "i < length (step # new)"
    then show "move c ((u # us) ! i) (JArr (state_at ?s (step # new) i)) = Returns ((step # new) ! i) \<and>
          (step # new) ! i \<noteq> JUndefined \<and> (step # new) ! i \<noteq> JStr END"
    proof (cases i)
      case 0
      then show ?thesis using ns step by (simp add: state_at_def)
    next
      case (Suc j)
      with \<open>i < length (step # new)\<close> have "j < length new" by simp
      with tr have "move c (us ! j) (JArr (state_at (tl ?s @ [step]) new j)) = Returns (new ! j) \<and>
               new ! j \<noteq> JUndefined \<and> new ! j \<noteq> JStr END" by blast
      then show ?thesis unfolding Suc nth_Cons_Suc shift .
    qed
  qed
  have B: "\<exists>k. createStateKey (JArr (state_at ?s (step # new) (length (step # new)))) = Returns k \<and>
          obj_get (model c) k \<noteq> None"
    using pr by (simp add: shift)
  have L: "length (step # new) = length (u # us)" using new by simp
  show ?case using L A B by blast
qed

lemma length_state_at:
  "i \<le> length steps \<Longrightarrow> length (state_at start steps i) = length start"
  by (simp add: state_at_def)

lemma obj_get_in_set: "obj_get obj k = Some v \<Longrightarrow> (k, v) \<in> set obj"
  by (simp add: obj_get_def map_of_SomeD)

lemma set_obj_update: "set (obj_update obj k v) \<subseteq> insert (k, v) (set obj)"
  by (induction obj) (auto split: if_splits)

lemma set_obj_insert_index: "set (obj_insert_index obj i k v) \<subseteq> insert (k, v) (set obj)"
  by (induction obj) (auto split: option.splits if_splits)

lemma set_obj_set: "set (obj_set obj k v) \<subseteq> insert (k, v) (set obj)"
  using set_obj_update [of obj k v] set_obj_insert_index [of obj _ k v]
  by (auto simp: obj_set_def split: option.splits)

lemma table_values_count_window:
  "table_values (count_window m w) \<subseteq> insert (snd w) (table_values m)"
proof
  fix x assume "x \<in> table_values (count_window m w)"
  then obtain k fs fk r where in_m: "(k, fs) \<in> set (count_window m w)"
    and in_fs: "(fk, r) \<in> set fs" and x: "x = value r"
    by (auto simp: table_values_def)
  define stateKey where "stateKey = state_key (JArr (fst w))"
  define followKey where "followKey = key_of (JSON_text (snd w))"
  define m1 where "m1 = (if obj_get m stateKey = None then obj_set m stateKey [] else m)"
  define fs0 where "fs0 = (case obj_get m1 stateKey of None \<Rightarrow> [] | Some fs \<Rightarrow> fs)"
  define fs1 where "fs1 = (if obj_get fs0 followKey = None
                 then obj_set fs0 followKey \<lparr>value = snd w, count = 0\<rparr> else fs0)"
  define fs2 where "fs2 = (case obj_get fs1 followKey of None \<Rightarrow> fs1
                 | Some r \<Rightarrow> obj_set fs1 followKey (r\<lparr>count := count r + 1\<rparr>))"
  have cw: "count_window m w = obj_set m1 stateKey fs2"
    by (simp only: count_window_def Let_def stateKey_def followKey_def m1_def fs0_def fs1_def fs2_def)
  let ?V = "insert (snd w) (table_values m)"
  have v_m: "value r' \<in> ?V" if "(k', fs') \<in> set m" "(fk', r') \<in> set fs'" for k' fs' fk' r'
    using that by (auto simp: table_values_def)
  have sub_m1: "set m1 \<subseteq> insert (stateKey, []) (set m)"
  proof (cases "obj_get m stateKey = None")
    case True
    then show ?thesis unfolding m1_def using set_obj_set [of m stateKey "[]"] by simp
  next
    case False
    then show ?thesis unfolding m1_def by auto
  qed
  have v_m1: "value r' \<in> ?V" if "(k', fs') \<in> set m1" "(fk', r') \<in> set fs'" for k' fs' fk' r'
  proof -
    from that(1) sub_m1 have "(k', fs') = (stateKey, []) \<or> (k', fs') \<in> set m" by blast
    then show ?thesis
    proof
      assume "(k', fs') = (stateKey, [])"
      then show ?thesis using that(2) by simp
    next
      assume "(k', fs') \<in> set m"
      then show ?thesis using that(2) by (rule v_m)
    qed
  qed
  have v_fs0: "value r' \<in> ?V" if "(fk', r') \<in> set fs0" for fk' r'
  proof (cases "obj_get m1 stateKey")
    case None
    then show ?thesis using that by (simp add: fs0_def)
  next
    case (Some f)
    then have "(stateKey, fs0) \<in> set m1" by (simp add: fs0_def obj_get_in_set)
    then show ?thesis using that by (rule v_m1)
  qed
  have sub_fs1: "set fs1 \<subseteq> insert (followKey, \<lparr>value = snd w, count = 0\<rparr>) (set fs0)"
  proof (cases "obj_get fs0 followKey = None")
    case True
    then show ?thesis unfolding fs1_def
      using set_obj_set [of fs0 followKey "\<lparr>value = snd w, count = 0\<rparr>"] by simp
  next
    case False
    then show ?thesis unfolding fs1_def by auto
  qed
  have v_fs1: "value r' \<in> ?V" if "(fk', r') \<in> set fs1" for fk' r'
  proof -
    from that sub_fs1 have "(fk', r') = (followKey, \<lparr>value = snd w, count = 0\<rparr>) \<or> (fk', r') \<in> set fs0"
      by blast
    then show ?thesis
    proof
      assume "(fk', r') = (followKey, \<lparr>value = snd w, count = 0\<rparr>)"
      then show ?thesis by simp
    next
      assume "(fk', r') \<in> set fs0"
      then show ?thesis by (rule v_fs0)
    qed
  qed
  have v_fs2: "value r' \<in> ?V" if "(fk', r') \<in> set fs2" for fk' r'
  proof (cases "obj_get fs1 followKey")
    case None
    then show ?thesis using that v_fs1 by (simp add: fs2_def)
  next
    case (Some r0)
    then have r0: "value r0 \<in> ?V" by (intro v_fs1 [OF obj_get_in_set])
    have "set fs2 \<subseteq> insert (followKey, r0\<lparr>count := count r0 + 1\<rparr>) (set fs1)"
      unfolding fs2_def Some using set_obj_set [of fs1 followKey] by simp
    with that have "(fk', r') = (followKey, r0\<lparr>count := count r0 + 1\<rparr>) \<or> (fk', r') \<in> set fs1"
      by blast
    then show ?thesis
    proof
      assume "(fk', r') = (followKey, r0\<lparr>count := count r0 + 1\<rparr>)"
      then show ?thesis using r0 by simp
    next
      assume "(fk', r') \<in> set fs1"
      then show ?thesis by (rule v_fs1)
    qed
  qed
  have "set (count_window m w) \<subseteq> insert (stateKey, fs2) (set m1)"
    unfolding cw by (rule set_obj_set)
  with in_m have "(k, fs) = (stateKey, fs2) \<or> (k, fs) \<in> set m1" by blast
  then show "x \<in> ?V"
  proof
    assume "(k, fs) = (stateKey, fs2)"
    then show ?thesis using in_fs v_fs2 unfolding x by simp
  next
    assume "(k, fs) \<in> set m1"
    then show ?thesis using in_fs unfolding x by (rule v_m1)
  qed
qed

lemma table_values_foldl:
  "table_values (foldl count_window m ws) \<subseteq> table_values m \<union> snd ` set ws"
proof (induction ws arbitrary: m)
  case Nil
  show ?case by simp
next
  case (Cons w ws)
  show ?case using Cons.IH [of "count_window m w"] table_values_count_window [of m w] by auto
qed

lemma follows_of_run:
  "snd ` set (windows_of_run n run) \<subseteq> insert (JStr END) (set run)"
proof -
  have mem: "padded_run n run ! (i + n) \<in> insert (JStr END) (set run)" if "i \<le> length run" for i
  proof -
    have "padded_run n run ! (i + n) = (run @ [JStr END]) ! i"
      by (simp add: padded_run_def nth_append)
    also have "\<dots> \<in> set (run @ [JStr END])" using that by (intro nth_mem) simp
    finally show ?thesis by simp
  qed
  have "set (windows_of_run n run) =
          (\<lambda>i. (take n (drop i (padded_run n run)), padded_run n run ! (i + n))) ` {0 ..< length run + 1}"
    unfolding windows_of_run_def by (simp only: set_map set_upt)
  then have "snd ` set (windows_of_run n run) = (\<lambda>i. padded_run n run ! (i + n)) ` {0 ..< length run + 1}"
    by (simp add: image_image)
  also have "\<dots> \<subseteq> insert (JStr END) (set run)"
    using mem by (intro image_subsetI) simp
  finally show ?thesis .
qed

lemma follows_of_windows:
  "snd ` set (windows n runs) \<subseteq> insert (JStr END) (\<Union> (set ` set runs))"
proof (induction runs)
  case Nil
  show ?case by (simp add: windows_def)
next
  case (Cons run runs)
  have "snd ` set (windows n (run # runs)) = snd ` set (windows_of_run n run) \<union> snd ` set (windows n runs)"
    by (simp add: windows_def image_Un)
  also have "\<dots> \<subseteq> insert (JStr END) (set run) \<union> insert (JStr END) (\<Union> (set ` set runs))"
    by (intro Un_mono follows_of_run Cons.IH)
  also have "\<dots> = insert (JStr END) (\<Union> (set ` set (run # runs)))"
    by auto
  finally show ?case .
qed

lemma state_at_Suc:
  assumes "start \<noteq> []" "i < length steps"
  shows "state_at start steps (Suc i) = tl (state_at start steps i) @ [steps ! i]"
proof -
  have "state_at start steps (Suc i) = drop (Suc i) ((start @ take i steps) @ [steps ! i])"
    using assms(2) by (simp add: state_at_def take_Suc_conv_app_nth)
  also have "\<dots> = drop (Suc i) (start @ take i steps) @ [steps ! i]"
    using assms by (cases start) simp_all
  also have "drop (Suc i) (start @ take i steps) = tl (drop i (start @ take i steps))"
    by (simp only: drop_Suc tl_drop)
  finally show ?thesis by (simp add: state_at_def)
qed

lemma built_chain:
  assumes "Chain_new (JArr (map JArr runs)) opt = Returns c" "1 \<le> stateSize c"
  shows "model c = foldl count_window [] (windows (nat (stateSize c)) runs) \<and>
         (\<forall>run \<in> set runs. \<forall>x \<in> set run. writable x)"
proof -
  from assms(1) obtain k where k: "state_size_of opt = Some k"
    by (cases "state_size_of opt") (simp_all add: Chain_new_def)
  from assms(1) have "and_then (build (JArr (map JArr runs)) k) (\<lambda>m. Returns \<lparr>stateSize = k, model = m\<rparr>) = Returns c"
    by (simp add: Chain_new_def k)
  then obtain m where b: "build (JArr (map JArr runs)) k = Returns m"
    and c: "c = \<lparr>stateSize = k, model = m\<rparr>"
    by (auto simp: and_then_Returns_iff)
  have pos: "0 < nat k" and same: "int (nat k) = k" using assms(2) c by simp_all
  from b have "build (JArr (map JArr runs)) (int (nat k)) = Returns m" unfolding same .
  from build_windows [OF pos this] show ?thesis by (simp add: c)
qed

lemma built_values:
  assumes "Chain_new (JArr (map JArr runs)) opt = Returns c" "1 \<le> stateSize c"
  shows "table_values (model c) \<subseteq> insert (JStr END) (\<Union> (set ` set runs))"
proof -
  have e: "table_values [] = {}" by (simp add: table_values_def)
  have m: "model c = foldl count_window [] (windows (nat (stateSize c)) runs)"
    using built_chain [OF assms] by (rule conjunct1)
  have "table_values (model c) \<subseteq> table_values [] \<union> snd ` set (windows (nat (stateSize c)) runs)"
    unfolding m by (rule table_values_foldl)
  then have "table_values (model c) \<subseteq> snd ` set (windows (nat (stateSize c)) runs)"
    unfolding e by simp
  then show ?thesis by (rule subset_trans [OF _ follows_of_windows])
qed

lemma built_writable:
  assumes "Chain_new (JArr (map JArr runs)) opt = Returns c" "1 \<le> stateSize c"
  shows "\<forall>x \<in> table_values (model c). writable x"
proof
  fix x assume "x \<in> table_values (model c)"
  then have "x = JStr END \<or> (\<exists>run \<in> set runs. x \<in> set run)"
    using built_values [OF assms] by auto
  moreover have "\<forall>run \<in> set runs. \<forall>x \<in> set run. writable x"
    using built_chain [OF assms] by (rule conjunct2)
  ultimately show "writable x" by auto
qed

text \<open>
  C4. For a chain built from a corpus with no symbol equal to \<^verbatim>\<open>BEGIN\<close> or \<^verbatim>\<open>END\<close>, with a
  state size of at least one: \<^verbatim>\<open>walk()\<close> starts from \<^verbatim>\<open>stateSize\<close> copies of \<^verbatim>\<open>BEGIN\<close>;
  when it ends it returns, every step it returns is the move drawn at the state reached so
  far and is neither \<^verbatim>\<open>undefined\<close> nor \<^verbatim>\<open>END\<close>, each state is the one before without its
  oldest symbol and with the new step appended, of length \<^verbatim>\<open>stateSize\<close>, the loop ended at
  the first state where the model has no entry or the move is \<^verbatim>\<open>undefined\<close> or \<^verbatim>\<open>END\<close>, and
  the steps contain neither \<^verbatim>\<open>BEGIN\<close> nor \<^verbatim>\<open>END\<close>. The caller's arrays are untouched. A
  walk that has not ended when the draws are used up has taken a step at every draw.
\<close>

theorem walk_without_argument:
  assumes built: "Chain_new (JArr (map JArr runs)) opt = Returns c"
    and size: "1 \<le> stateSize c"
    and clean: "\<forall>run \<in> set runs. JStr BEGIN \<notin> set run \<and> JStr END \<notin> set run"
  shows "(\<forall>res h'. walk c draws h Omitted = Some (res, h') \<longrightarrow>
           (\<exists>steps. res = Returns steps \<and> length steps \<le> length draws \<and>
              (\<forall>i < length steps.
                 move c (draws ! i) (JArr (state_at (createBeginState (stateSize c)) steps i)) = Returns (steps ! i) \<and>
                 steps ! i \<noteq> JUndefined \<and> steps ! i \<noteq> JStr END \<and>
                 state_at (createBeginState (stateSize c)) steps (Suc i) =
                   tl (state_at (createBeginState (stateSize c)) steps i) @ [steps ! i]) \<and>
              (\<forall>i \<le> length steps.
                 length (state_at (createBeginState (stateSize c)) steps i) = nat (stateSize c)) \<and>
              stops_at c draws (state_at (createBeginState (stateSize c)) steps (length steps)) (length steps) \<and>
              JStr BEGIN \<notin> set steps \<and> JStr END \<notin> set steps \<and>
              (\<forall>b < next_free h. cells h' b = cells h b))) \<and>
         (walk c draws h Omitted = None \<longrightarrow>
           (\<exists>steps. length steps = length draws \<and>
              (\<forall>i < length steps.
                 move c (draws ! i) (JArr (state_at (createBeginState (stateSize c)) steps i)) = Returns (steps ! i) \<and>
                 steps ! i \<noteq> JUndefined \<and> steps ! i \<noteq> JStr END) \<and>
              (\<exists>k. createStateKey (JArr (state_at (createBeginState (stateSize c)) steps (length steps))) = Returns k \<and>
                   obj_get (model c) k \<noteq> None))) \<and>
         state_at (createBeginState (stateSize c)) [] 0 = replicate (nat (stateSize c)) (JStr BEGIN)"
proof (intro conjI allI impI)
  let ?start = "createBeginState (stateSize c)"
  let ?a = "next_free h"
  let ?h1 = "h\<lparr>cells := (cells h)(?a := ?start), next_free := Suc ?a\<rparr>"
  have ne: "?start \<noteq> []" using size by (simp add: createBeginState_def)
  have len: "length ?start = nat (stateSize c)" by (simp add: createBeginState_def)
  have c1: "cells ?h1 ?a = ?start" by simp
  have ne1: "cells ?h1 ?a \<noteq> []" using ne by simp
  have ws: "\<forall>x \<in> set (cells ?h1 ?a). writable x"
    unfolding c1 using begin_state_writable [of "stateSize c"] by simp
  note wt = built_writable [OF built size]
  have w: "walk c draws h Omitted = walk_loop c ?a ?h1 [] draws"
    by (simp add: walk_def alloc_def)
  show "state_at ?start [] 0 = replicate (nat (stateSize c)) (JStr BEGIN)"
    by (simp add: state_at_def createBeginState_def)
  {
    fix res h'
    assume "walk c draws h Omitted = Some (res, h')"
    then have run: "walk_loop c ?a ?h1 [] draws = Some (res, h')"
      unfolding w .
    from walk_loop_trace [OF run ne1 ws wt]
    obtain steps where res: "res = Returns ([] @ steps)" and n: "length steps \<le> length draws"
      and tr: "\<forall>i < length steps. move c (draws ! i) (JArr (state_at (cells ?h1 ?a) steps i)) = Returns (steps ! i) \<and>
                 steps ! i \<noteq> JUndefined \<and> steps ! i \<noteq> JStr END"
      and st: "stops_at c draws (state_at (cells ?h1 ?a) steps (length steps)) (length steps)"
      and ce: "cells h' = (cells ?h1)(?a := state_at (cells ?h1 ?a) steps (length steps))"
      by blast
    have T: "\<forall>i < length steps.
                 move c (draws ! i) (JArr (state_at ?start steps i)) = Returns (steps ! i) \<and>
                 steps ! i \<noteq> JUndefined \<and> steps ! i \<noteq> JStr END"
      using tr unfolding c1 .
    have T': "\<forall>i < length steps.
                 move c (draws ! i) (JArr (state_at ?start steps i)) = Returns (steps ! i) \<and>
                 steps ! i \<noteq> JUndefined \<and> steps ! i \<noteq> JStr END \<and>
                 state_at ?start steps (Suc i) = tl (state_at ?start steps i) @ [steps ! i]"
    proof (intro allI impI)
      fix i assume i: "i < length steps"
      show "move c (draws ! i) (JArr (state_at ?start steps i)) = Returns (steps ! i) \<and>
                 steps ! i \<noteq> JUndefined \<and> steps ! i \<noteq> JStr END \<and>
                 state_at ?start steps (Suc i) = tl (state_at ?start steps i) @ [steps ! i]"
        using T [rule_format, OF i] state_at_Suc [OF ne i] by (elim conjE, intro conjI) assumption+
    qed
    have Ls: "\<forall>i \<le> length steps. length (state_at ?start steps i) = nat (stateSize c)"
      using length_state_at [of _ steps ?start] len by simp
    have S: "stops_at c draws (state_at ?start steps (length steps)) (length steps)"
      using st unfolding c1 .
    have vals: "set steps \<subseteq> table_values (model c)"
    proof
      fix x assume "x \<in> set steps"
      then obtain i where i: "i < length steps" "x = steps ! i" by (auto simp: in_set_conv_nth)
      note Ti = T [rule_format, OF i(1)]
      have eq: "move c (draws ! i) (JArr (state_at ?start steps i)) = Returns x"
        unfolding i(2) using Ti by (rule conjunct1)
      have "x \<noteq> JUndefined" unfolding i(2) using Ti by (elim conjE)
      with move_value [OF eq] show "x \<in> table_values (model c)" by blast
    qed
    have noEND: "JStr END \<notin> set steps"
    proof
      assume "JStr END \<in> set steps"
      then obtain i where i: "i < length steps" "steps ! i = JStr END" by (auto simp: in_set_conv_nth)
      from T [rule_format, OF i(1)] i(2) show False by (elim conjE) simp
    qed
    have noBEGIN: "JStr BEGIN \<notin> set steps"
    proof
      assume "JStr BEGIN \<in> set steps"
      then have "JStr BEGIN \<in> insert (JStr END) (\<Union> (set ` set runs))"
        using vals built_values [OF built size] by blast
      moreover have "JStr BEGIN \<noteq> JStr END" by (simp add: BEGIN_def END_def)
      ultimately show False using clean by auto
    qed
    have frame: "\<forall>b < next_free h. cells h' b = cells h b"
      unfolding ce by simp
    show "\<exists>steps. res = Returns steps \<and> length steps \<le> length draws \<and>
              (\<forall>i < length steps.
                 move c (draws ! i) (JArr (state_at ?start steps i)) = Returns (steps ! i) \<and>
                 steps ! i \<noteq> JUndefined \<and> steps ! i \<noteq> JStr END \<and>
                 state_at ?start steps (Suc i) = tl (state_at ?start steps i) @ [steps ! i]) \<and>
              (\<forall>i \<le> length steps. length (state_at ?start steps i) = nat (stateSize c)) \<and>
              stops_at c draws (state_at ?start steps (length steps)) (length steps) \<and>
              JStr BEGIN \<notin> set steps \<and> JStr END \<notin> set steps \<and>
              (\<forall>b < next_free h. cells h' b = cells h b)"
    proof (intro exI [of _ steps] conjI)
      show "res = Returns steps" using res by simp
      show "length steps \<le> length draws" by (rule n)
    qed (rule T' Ls S noBEGIN noEND frame)+
  }
  {
    assume "walk c draws h Omitted = None"
    then have run: "walk_loop c ?a ?h1 [] draws = None" unfolding w by simp
    from walk_loop_None [OF run ne1]
    show "\<exists>steps. length steps = length draws \<and>
              (\<forall>i < length steps.
                 move c (draws ! i) (JArr (state_at ?start steps i)) = Returns (steps ! i) \<and>
                 steps ! i \<noteq> JUndefined \<and> steps ! i \<noteq> JStr END) \<and>
              (\<exists>k. createStateKey (JArr (state_at ?start steps (length steps))) = Returns k \<and>
                   obj_get (model c) k \<noteq> None)"
      unfolding c1 .
  }
qed

lemma walk_scenario_steps:
  "map_option fst (walk scenario_chain [0, 0, 0, 0, 0] empty_heap Omitted) =
     Some (Returns [JStr ''foo'', JStr ''bar'', JStr ''baz'', JStr ''qux.''])"
  by code_simp

theorem walk_without_argument_witness:
  "\<exists>h'. walk scenario_chain [0, 0, 0, 0, 0] empty_heap Omitted =
          Some (Returns [JStr ''foo'', JStr ''bar'', JStr ''baz'', JStr ''qux.''], h') \<and>
        JStr BEGIN \<notin> set [JStr ''foo'', JStr ''bar'', JStr ''baz'', JStr ''qux.''] \<and>
        JStr END \<notin> set [JStr ''foo'', JStr ''bar'', JStr ''baz'', JStr ''qux.''] \<and>
        stops_at scenario_chain [0, 0, 0, 0, 0]
          (state_at (createBeginState 1) [JStr ''foo'', JStr ''bar'', JStr ''baz'', JStr ''qux.''] 4) 4"
proof -
  let ?steps = "[JStr ''foo'', JStr ''bar'', JStr ''baz'', JStr ''qux.'']"
  let ?draws = "[0, 0, 0, 0, 0] :: real list"
  from walk_scenario_steps obtain h' where
    run: "walk scenario_chain ?draws empty_heap Omitted = Some (Returns ?steps, h')"
    by auto
  have size: "1 \<le> stateSize scenario_chain" by (simp add: scenario_chain_def)
  have clean: "\<forall>run \<in> set scenario_corpus. JStr BEGIN \<notin> set run \<and> JStr END \<notin> set run"
    by (simp add: scenario_corpus_def BEGIN_def END_def)
  from walk_without_argument [OF Chain_new_scenario size clean, of ?draws empty_heap,
      THEN conjunct1, rule_format, OF run]
  obtain steps where eq: "Returns ?steps = Returns steps"
    and st: "stops_at scenario_chain ?draws
           (state_at (createBeginState (stateSize scenario_chain)) steps (length steps)) (length steps)"
    and nb: "JStr BEGIN \<notin> set steps" and ne: "JStr END \<notin> set steps"
    by blast
  have steps: "steps = ?steps" using eq by simp
  have one: "stateSize scenario_chain = 1" by (simp add: scenario_chain_def)
  have "length ?steps = 4" by simp
  then have "stops_at scenario_chain ?draws (state_at (createBeginState 1) ?steps 4) 4"
    using st unfolding steps one by (simp only:)
  moreover have "JStr BEGIN \<notin> set ?steps" "JStr END \<notin> set ?steps"
    using nb ne unfolding steps by simp_all
  ultimately show ?thesis using run by blast
qed

lemma walk_array_final:
  assumes "walk c draws h (ArrayAt a) = Some (res, h')" "cells h a \<noteq> []"
    and "\<forall>x \<in> set (cells h a). writable x" and "\<forall>x \<in> table_values (model c). writable x"
  shows "\<exists>steps. res = Returns steps \<and> cells h' a = state_at (cells h a) steps (length steps)"
proof -
  from assms(1) have run: "walk_loop c a h [] draws = Some (res, h')"
    by (simp add: walk_def)
  from walk_loop_trace [OF run assms(2,3,4)]
  obtain new where "res = Returns ([] @ new)"
    and "cells h' = (cells h)(a := state_at (cells h a) new (length new))"
    by blast
  then have "res = Returns new \<and> cells h' a = state_at (cells h a) new (length new)" by simp
  then show ?thesis by blast
qed

text \<open>
  C5. \<^verbatim>\<open>walk(fromState)\<close> works on the caller's array itself. On the chain of the tests,
  called with an array holding \<^verbatim>\<open>BEGIN\<close> and with every draw \<open>0\<close>, it returns the four steps
  \<^verbatim>\<open>foo bar baz qux.\<close> and leaves the caller's array holding \<^verbatim>\<open>qux.\<close> instead of
  \<^verbatim>\<open>BEGIN\<close>.
\<close>

theorem walk_overwrites_fromState:
  "cells (snd (alloc empty_heap [JStr BEGIN])) 0 = [JStr BEGIN] \<and>
   map_option (\<lambda>(res, h'). (res, cells h' 0))
     (walk scenario_chain [0, 0, 0, 0, 0] (snd (alloc empty_heap [JStr BEGIN])) (ArrayAt 0)) =
     Some (Returns [JStr ''foo'', JStr ''bar'', JStr ''baz'', JStr ''qux.''], [JStr ''qux.''])"
  by code_simp

section \<open>Properties of JSON.stringify and state_key\<close>

declare show_nat.simps [simp del]

lemma digit_char_cases:
  assumes "(d::nat) < 16"
  shows "d \<in> {0, 1, 2, 3, 4, 5, 6, 7, 8, 9, 10, 11, 12, 13, 14, 15}"
  using assms unfolding insert_iff empty_iff by arith

lemma hex_value_digit_char: "d < 16 \<Longrightarrow> hex_value (digit_char d) = Some d"
  using digit_char_cases [of d] by (auto simp: hex_value_def digit_char_def)

lemma is_digit_digit_char: "d < 10 \<Longrightarrow> is_digit (digit_char d)"
  using digit_char_cases [of d] by (auto simp: is_digit_def digit_char_def)

lemma of_char_digit_char: "d < 10 \<Longrightarrow> (of_char (digit_char d) :: int) - 48 = int d"
  using digit_char_cases [of d] by (auto simp: digit_char_def)

lemma digit_char_zero: "d < 10 \<Longrightarrow> digit_char d = CHR ''0'' \<longleftrightarrow> d = 0"
  using digit_char_cases [of d] by (auto simp: digit_char_def)

lemma read_escape:
  "read_string_body (escape_char c @ rest) = map_option (\<lambda>(s, t). (c # s, t)) (read_string_body rest)"
proof -
  define n where "n = (of_char c :: nat)"
  have c: "c = char_of n" by (simp add: n_def)
  have n256: "n < 256" by (simp add: n_def)
  consider "n = 0x22" | "n = 0x5C" | "n = 0x08" | "n = 0x0C" | "n = 0x0A" | "n = 0x0D" | "n = 0x09"
    | "n < 0x20" "n \<notin> {0x08, 0x0C, 0x0A, 0x0D, 0x09}" | "n \<ge> 0x20" "n \<noteq> 0x22" "n \<noteq> 0x5C"
    by force
  then show ?thesis
  proof cases
    case 8
    note c8 = this
    have e: "escape_char c = [CHR 0x5C, CHR ''u'', CHR ''0'', CHR ''0'', digit_char (n div 16), digit_char (n mod 16)]"
      using c8 by (simp add: escape_char_def n_def [symmetric])
    have h: "hex_value (digit_char (n div 16)) = Some (n div 16)" "hex_value (digit_char (n mod 16)) = Some (n mod 16)"
      using c8(1) by (simp_all add: hex_value_digit_char)
    have z: "hex_value (CHR ''0'') = Some 0" by (simp add: hex_value_def)
    have same: "char_of (16 * (n div 16) + n mod 16) = c" by (simp add: c)
    have "char_of n = c" by (simp add: c)
    then show ?thesis unfolding e by (simp add: h z same)
  next
    case 9
    note c9 = this
    have e: "escape_char c = [c]"
      using c9 by (simp add: escape_char_def n_def [symmetric])
    have "c \<noteq> CHR 0x22" "c \<noteq> CHR 0x5C" "\<not> (of_char c :: nat) < 32"
      using c9 by (auto simp: n_def)
    then show ?thesis unfolding e by simp
  next
    case 1
    then have "(of_char c :: nat) = of_char (CHR 0x22)" by (simp add: n_def)
    then have "c = CHR 0x22" by (simp only: of_char_eq_iff)
    then show ?thesis by (simp add: escape_char_def unescape_char_def)
  next
    case 2
    then have "(of_char c :: nat) = of_char (CHR 0x5C)" by (simp add: n_def)
    then have "c = CHR 0x5C" by (simp only: of_char_eq_iff)
    then show ?thesis by (simp add: escape_char_def unescape_char_def)
  next
    case 3
    then have "(of_char c :: nat) = of_char (CHR 0x08)" by (simp add: n_def)
    then have "c = CHR 0x08" by (simp only: of_char_eq_iff)
    then show ?thesis by (simp add: escape_char_def unescape_char_def)
  next
    case 4
    then have "(of_char c :: nat) = of_char (CHR 0x0C)" by (simp add: n_def)
    then have "c = CHR 0x0C" by (simp only: of_char_eq_iff)
    then show ?thesis by (simp add: escape_char_def unescape_char_def)
  next
    case 5
    then have "(of_char c :: nat) = of_char (CHR 0x0A)" by (simp add: n_def)
    then have "c = CHR 0x0A" by (simp only: of_char_eq_iff)
    then show ?thesis by (simp add: escape_char_def unescape_char_def)
  next
    case 6
    then have "(of_char c :: nat) = of_char (CHR 0x0D)" by (simp add: n_def)
    then have "c = CHR 0x0D" by (simp only: of_char_eq_iff)
    then show ?thesis by (simp add: escape_char_def unescape_char_def)
  next
    case 7
    then have "(of_char c :: nat) = of_char (CHR 0x09)" by (simp add: n_def)
    then have "c = CHR 0x09" by (simp only: of_char_eq_iff)
    then show ?thesis by (simp add: escape_char_def unescape_char_def)
  qed
qed

lemma read_quoted:
  "read_string_body (concat (map escape_char s) @ CHR 0x22 # rest) = Some (s, rest)"
  by (induction s) (simp_all add: read_escape)

lemma show_nat_small: "n < 10 \<Longrightarrow> show_nat n = [digit_char n]"
  by (subst show_nat.simps) simp

lemma show_nat_large: "\<not> n < 10 \<Longrightarrow> show_nat n = show_nat (n div 10) @ [digit_char (n mod 10)]"
  by (subst show_nat.simps) simp

lemma show_nat_digits: "list_all is_digit (show_nat n)"
proof (induction n rule: show_nat.induct)
  case (1 n)
  show ?case
  proof (cases "n < 10")
    case True
    then show ?thesis by (simp add: show_nat_small is_digit_digit_char)
  next
    case False
    then show ?thesis using 1 by (simp add: show_nat_large is_digit_digit_char)
  qed
qed

lemma show_nat_nonempty: "show_nat n \<noteq> []"
  by (cases "n < 10") (simp_all add: show_nat_small show_nat_large)

lemma read_decimal_snoc: "read_decimal (ds @ [d]) = 10 * read_decimal ds + (of_char d - 48)"
  by (simp add: read_decimal_def)

lemma read_decimal_show_nat: "read_decimal (show_nat n) = int n"
proof (induction n rule: show_nat.induct)
  case (1 n)
  show ?case
  proof (cases "n < 10")
    case True
    then show ?thesis by (simp add: show_nat_small read_decimal_def of_char_digit_char)
  next
    case False
    then have "read_decimal (show_nat n) = 10 * int (n div 10) + int (n mod 10)"
      using 1 by (simp add: show_nat_large read_decimal_snoc of_char_digit_char)
    also have "\<dots> = int (10 * (n div 10) + n mod 10)"
      by (simp only: of_nat_add of_nat_mult of_nat_numeral)
    also have "10 * (n div 10) + n mod 10 = n" by simp
    finally show ?thesis .
  qed
qed

lemma hd_show_nat: "hd (show_nat n) = CHR ''0'' \<longleftrightarrow> n = 0"
proof (induction n rule: show_nat.induct)
  case (1 n)
  show ?case
  proof (cases "n < 10")
    case True
    then show ?thesis by (simp add: show_nat_small digit_char_zero)
  next
    case False
    then have "hd (show_nat n) = hd (show_nat (n div 10))"
      by (simp add: show_nat_large show_nat_nonempty)
    then show ?thesis using 1 False by simp
  qed
qed

lemma show_nat_zero: "show_nat n = ''0'' \<longleftrightarrow> n = 0"
proof
  assume "show_nat n = ''0''"
  then have "hd (show_nat n) = CHR ''0''" by simp
  then show "n = 0" by (simp add: hd_show_nat)
next
  assume "n = 0"
  then show "show_nat n = ''0''" by (simp add: show_nat_small digit_char_def)
qed

lemma ends_number_not_digit: "ends_number rest \<Longrightarrow> rest = [] \<or> \<not> is_digit (hd rest)"
  by (auto simp: ends_number_def is_digit_def)

lemma takeWhile_digits:
  assumes "list_all is_digit ds" "rest = [] \<or> \<not> is_digit (hd rest)"
  shows "takeWhile is_digit (ds @ rest) = ds" "dropWhile is_digit (ds @ rest) = rest"
proof -
  have t: "takeWhile is_digit rest = []" "dropWhile is_digit rest = rest"
    using assms(2) by (cases rest; simp)+
  show "takeWhile is_digit (ds @ rest) = ds" "dropWhile is_digit (ds @ rest) = rest"
    using assms(1) t by (induction ds) simp_all
qed

lemma read_digits_run:
  assumes "list_all is_digit ds" "rest = [] \<or> \<not> is_digit (hd rest)"
  shows "read_digits negative (ds @ rest) =
     (if ds = [] \<or> (hd ds = CHR ''0'' \<and> ds \<noteq> ''0'') \<or> (negative \<and> ds = ''0'')
            \<or> (rest \<noteq> [] \<and> hd rest \<in> {CHR ''.'', CHR ''e'', CHR ''E''})
      then None
      else Some (if negative then - read_decimal ds else read_decimal ds, rest))"
  unfolding read_digits_def Let_def takeWhile_digits [OF assms] ..

lemma read_number_show_int:
  assumes "ends_number rest"
  shows "read_number (show_int i @ rest) = Some (i, rest)"
proof -
  note nd = ends_number_not_digit [OF assms]
  have not_frac: "\<not> (rest \<noteq> [] \<and> hd rest \<in> {CHR ''.'', CHR ''e'', CHR ''E''})"
    using assms by (auto simp: ends_number_def)
  show ?thesis
  proof (cases "i < 0")
    case True
    let ?ds = "show_nat (nat (- i))"
    have nz: "?ds \<noteq> ''0''" using True by (simp add: show_nat_zero)
    have hd0: "hd ?ds \<noteq> CHR ''0''" using True by (simp add: hd_show_nat)
    have val: "read_decimal ?ds = - i" using True by (simp add: read_decimal_show_nat)
    have "read_number (show_int i @ rest) = read_digits True (?ds @ rest)"
      using True by (simp add: read_number_def show_int_def)
    also have "\<dots> = Some (i, rest)"
      unfolding read_digits_run [OF show_nat_digits nd]
      using not_frac nz hd0 show_nat_nonempty [of "nat (- i)"] val by simp
    finally show ?thesis .
  next
    case False
    let ?ds = "show_nat (nat i)"
    have "is_digit (hd ?ds)"
      using show_nat_digits [of "nat i"] show_nat_nonempty [of "nat i"] by (cases ?ds) simp_all
    then have nominus: "hd ?ds \<noteq> CHR ''-''" by (auto simp: is_digit_def)
    have lead: "hd ?ds = CHR ''0'' \<longrightarrow> ?ds = ''0''"
      by (simp add: hd_show_nat show_nat_zero)
    have val: "read_decimal ?ds = i" using False by (simp add: read_decimal_show_nat)
    obtain c cs where cs: "?ds = c # cs" using show_nat_nonempty [of "nat i"] by (cases ?ds) auto
    have "read_number (show_int i @ rest) = read_digits False (?ds @ rest)"
      using False nominus unfolding read_number_def show_int_def cs by simp
    also have "\<dots> = Some (i, rest)"
      unfolding read_digits_run [OF show_nat_digits nd]
      using not_frac lead show_nat_nonempty [of "nat i"] val by simp
    finally show ?thesis .
  qed
qed

lemma json_value_stringify: "json_value v \<Longrightarrow> JSON_text v = Some (text_of v)"
  by (cases v) (simp_all add: text_of_def)

lemma text_of_simps:
  "text_of JNull = ''null''"
  "text_of (JBool True) = ''true''"
  "text_of (JBool False) = ''false''"
  "text_of (JNum i) = show_int i"
  "text_of (JStr s) = QuoteJSONString s"
  "text_of (JArr xs) = CHR ''['' # join_comma (map text_of xs) @ '']''"
  by (simp_all add: text_of_def cong: map_cong)

lemma text_of_obj:
  assumes "\<forall>p \<in> set ps. json_value (snd p)"
  shows "text_of (JObj ps) = CHR ''{'' # join_comma (map member_text ps) @ ''}''"
proof -
  have "concat (map (\<lambda>(k, v). case JSON_text v of None \<Rightarrow> []
         | Some t \<Rightarrow> [QuoteJSONString k @ CHR '':'' # t]) ps) = map member_text ps"
    using assms by (induction ps) (auto simp: member_text_def json_value_stringify)
  then show ?thesis by (simp add: text_of_def)
qed

lemma join_comma_Cons:
  "join_comma (t # ts) = (if ts = [] then t else t @ CHR '','' # join_comma ts)"
  by (cases ts) simp_all

lemma show_int_nonempty: "show_int i \<noteq> []"
  by (simp add: show_int_def show_nat_nonempty)

lemma hd_show_int: "is_digit (hd (show_int i)) \<or> hd (show_int i) = CHR ''-''"
proof (cases "i < 0")
  case True
  then show ?thesis by (simp add: show_int_def)
next
  case False
  have "is_digit (hd (show_nat (nat i)))"
    using show_nat_digits [of "nat i"] show_nat_nonempty [of "nat i"]
    by (cases "show_nat (nat i)") simp_all
  then show ?thesis using False by (simp add: show_int_def)
qed

lemma text_of_nonempty: "json_value v \<Longrightarrow> text_of v \<noteq> []"
  by (cases v) (auto simp: text_of_def QuoteJSONString_def show_int_nonempty)

lemma hd_text_of: "json_value v \<Longrightarrow> starts_value (hd (text_of v))"
proof (cases v)
  case (JNum i)
  then show ?thesis using hd_show_int [of i] by (auto simp: text_of_simps starts_value_def)
next
  case (JBool b)
  then show ?thesis by (cases b) (simp_all add: text_of_simps starts_value_def)
qed (auto simp: text_of_def starts_value_def QuoteJSONString_def)

lemma read_value_number:
  assumes "s \<noteq> []" "is_digit (hd s) \<or> hd s = CHR ''-''"
  shows "read_value (Suc n) s = map_option (\<lambda>(i, r). (JNum i, r)) (read_number s)"
proof -
  obtain c cs where s: "s = c # cs" using assms(1) by (cases s) auto
  have "c \<noteq> CHR ''n''" "c \<noteq> CHR ''t''" "c \<noteq> CHR ''f''" "c \<noteq> CHR 0x22" "c \<noteq> CHR ''[''" "c \<noteq> CHR ''{''"
    using assms(2) unfolding s by (auto simp: is_digit_def)
  then show ?thesis unfolding s by simp
qed

lemma read_value_string:
  "read_value (Suc n) (QuoteJSONString s @ rest) = Some (JStr s, rest)"
  by (simp add: QuoteJSONString_def read_quoted)

lemma read_value_array:
  assumes "s \<noteq> []" "hd s \<noteq> CHR '']''"
  shows "read_value (Suc n) (CHR ''['' # s) = map_option (\<lambda>(xs, r). (JArr xs, r)) (read_elements n s)"
proof -
  obtain c cs where s: "s = c # cs" using assms(1) by (cases s) auto
  then show ?thesis using assms(2) by simp
qed

lemma read_value_object:
  assumes "s \<noteq> []" "hd s \<noteq> CHR ''}''"
  shows "read_value (Suc n) (CHR ''{'' # s) =
         map_option (\<lambda>(ps, r). (JObj (foldl (\<lambda>obj (k, v). obj_set obj k v) [] ps), r)) (read_members n s)"
proof -
  obtain c cs where s: "s = c # cs" using assms(1) by (cases s) auto
  then show ?thesis using assms(2) by simp
qed

lemma key_before_neq: "key_before a k \<Longrightarrow> a \<noteq> k"
  by (auto simp: key_before_def split: option.splits)

lemma key_before_index:
  "key_before a k \<Longrightarrow> array_index k = Some j \<Longrightarrow> \<exists>i. array_index a = Some i \<and> i < j"
  by (auto simp: key_before_def split: option.splits)

lemma obj_insert_index_last:
  assumes "\<forall>a \<in> set (map fst obj). \<exists>i. array_index a = Some i \<and> i < j"
  shows "obj_insert_index obj j k v = obj @ [(k, v)]"
  using assms by (induction obj) auto

lemma obj_get_None: "k \<notin> set (map fst obj) \<Longrightarrow> obj_get obj k = None"
  by (simp add: obj_get_def map_of_eq_None_iff)

lemma obj_set_last:
  assumes "\<forall>a \<in> set (map fst obj). key_before a k"
  shows "obj_set obj k v = obj @ [(k, v)]"
proof -
  have "k \<notin> set (map fst obj)" using assms key_before_neq by blast
  then have none: "obj_get obj k = None" by (rule obj_get_None)
  show ?thesis
  proof (cases "array_index k")
    case None
    then show ?thesis using none by (simp add: obj_set_def)
  next
    case (Some j)
    have "\<forall>a \<in> set (map fst obj). \<exists>i. array_index a = Some i \<and> i < j"
      using assms key_before_index [OF _ Some] by blast
    then show ?thesis using none Some by (simp add: obj_set_def obj_insert_index_last)
  qed
qed

lemma fold_set_ordered_acc:
  "enum_ordered (map fst (acc @ ps)) \<Longrightarrow> foldl (\<lambda>obj (k, v). obj_set obj k v) acc ps = acc @ ps"
proof (induction ps arbitrary: acc)
  case Nil
  show ?case by simp
next
  case (Cons p ps)
  obtain k v where p: "p = (k, v)" by (cases p)
  have "\<forall>a \<in> set (map fst acc). key_before a k"
    using Cons.prems by (auto simp: enum_ordered_def sorted_wrt_append p)
  then have "obj_set acc k v = acc @ [(k, v)]" by (rule obj_set_last)
  moreover have "enum_ordered (map fst ((acc @ [(k, v)]) @ ps))"
    using Cons.prems by (simp add: p)
  ultimately show ?case using Cons.IH [of "acc @ [(k, v)]"] by (simp add: p)
qed

lemma fold_set_ordered:
  "enum_ordered (map fst ps) \<Longrightarrow> foldl (\<lambda>obj (k, v). obj_set obj k v) [] ps = ps"
  using fold_set_ordered_acc [of "[]" ps] by simp

lemma ends_number_sep [simp]:
  "ends_number (CHR '','' # s)" "ends_number (CHR '']'' # s)" "ends_number (CHR ''}'' # s)" "ends_number []"
  by (simp_all add: ends_number_def)

lemma starts_value_not_close: "starts_value c \<Longrightarrow> c \<noteq> CHR '']'' \<and> c \<noteq> CHR ''}''"
  by (auto simp: starts_value_def is_digit_def)

lemma length_join_comma_ge:
  "length t \<le> length (join_comma (t # ts))"
  by (simp add: join_comma_Cons)

lemma read_elements_texts:
  assumes ih: "\<And>x n rest. x \<in> set xs \<Longrightarrow> length (text_of x) \<le> n \<Longrightarrow> ends_number rest \<Longrightarrow>
                 read_value n (text_of x @ rest) = Some (x, rest)"
    and ne: "xs \<noteq> []" and nonempty: "\<forall>x \<in> set xs. text_of x \<noteq> []"
    and fuel: "length (join_comma (map text_of xs)) + 1 \<le> m"
  shows "read_elements m (join_comma (map text_of xs) @ CHR '']'' # rest) = Some (xs, rest)"
  using ih ne nonempty fuel
proof (induction xs arbitrary: m)
  case Nil
  then show ?case by simp
next
  case (Cons x xs)
  from Cons.prems(4) obtain k where m: "m = Suc k" by (cases m) auto
  show ?case
  proof (cases "xs = []")
    case True
    have "length (text_of x) \<le> k" using Cons.prems(4) True m by simp
    then have "read_value k (text_of x @ CHR '']'' # rest) = Some (x, CHR '']'' # rest)"
      by (intro Cons.prems(1)) simp_all
    then show ?thesis using True by (simp add: m)
  next
    case False
    let ?tail = "join_comma (map text_of xs) @ CHR '']'' # rest"
    have j: "join_comma (map text_of (x # xs)) = text_of x @ CHR '','' # join_comma (map text_of xs)"
      using False by (simp add: join_comma_Cons)
    have lj: "length (join_comma (map text_of (x # xs))) =
              length (text_of x) + 1 + length (join_comma (map text_of xs))"
      unfolding j by simp
    from Cons.prems(4) have "length (join_comma (map text_of (x # xs))) + 1 \<le> Suc k"
      by (simp only: m)
    then have tot: "(length (text_of x) + 1 + length (join_comma (map text_of xs))) + 1 \<le> Suc k"
      by (simp only: lj)
    have lx: "length (text_of x) \<le> k" using tot by simp
    have rv: "read_value k (text_of x @ CHR '','' # ?tail) = Some (x, CHR '','' # ?tail)"
      using lx by (intro Cons.prems(1)) simp_all
    have "text_of x \<noteq> []" using Cons.prems(3) by simp
    then have "1 \<le> length (text_of x)" by (cases "text_of x") simp_all
    then have fk: "length (join_comma (map text_of xs)) + 1 \<le> k"
      using tot by simp
    have re: "read_elements k ?tail = Some (xs, rest)"
      using Cons.prems(1,3) False fk by (intro Cons.IH) simp_all
    show ?thesis unfolding j m using rv re by simp
  qed
qed

lemma read_members_texts:
  assumes ih: "\<And>p n rest. p \<in> set ps \<Longrightarrow> length (text_of (snd p)) \<le> n \<Longrightarrow> ends_number rest \<Longrightarrow>
                 read_value n (text_of (snd p) @ rest) = Some (snd p, rest)"
    and ne: "ps \<noteq> []"
    and fuel: "length (join_comma (map member_text ps)) + 1 \<le> m"
  shows "read_members m (join_comma (map member_text ps) @ CHR ''}'' # rest) = Some (ps, rest)"
  using ih ne fuel
proof (induction ps arbitrary: m)
  case Nil
  then show ?case by simp
next
  case (Cons p ps)
  obtain key v where p: "p = (key, v)" by (cases p)
  from Cons.prems(3) obtain k where m: "m = Suc k" by (cases m) auto
  have mt: "member_text (key, v) = CHR 0x22 # concat (map escape_char key) @ CHR 0x22 # CHR '':'' # text_of v"
    by (simp add: member_text_def QuoteJSONString_def)
  have lm: "length (text_of v) + 3 \<le> length (member_text (key, v))" by (simp add: mt)
  show ?case
  proof (cases "ps = []")
    case True
    have "length (text_of v) \<le> k" using Cons.prems(3) lm unfolding True m p by simp
    then have "read_value k (text_of v @ CHR ''}'' # rest) = Some (v, CHR ''}'' # rest)"
      using Cons.prems(1) [of p k "CHR ''}'' # rest"] by (simp add: p)
    then show ?thesis unfolding True m p by (simp add: mt read_quoted)
  next
    case False
    let ?tail = "join_comma (map member_text ps) @ CHR ''}'' # rest"
    have j: "join_comma (map member_text (p # ps)) = member_text (key, v) @ CHR '','' # join_comma (map member_text ps)"
      using False by (simp add: join_comma_Cons p)
    have lj: "length (join_comma (map member_text (p # ps))) =
              length (member_text (key, v)) + 1 + length (join_comma (map member_text ps))"
      unfolding j by simp
    from Cons.prems(3) have "length (join_comma (map member_text (p # ps))) + 1 \<le> Suc k"
      by (simp only: m)
    then have tot: "(length (member_text (key, v)) + 1 + length (join_comma (map member_text ps))) + 1 \<le> Suc k"
      by (simp only: lj)
    have lx: "length (text_of v) \<le> k" using tot lm by simp
    have rv: "read_value k (text_of v @ CHR '','' # ?tail) = Some (v, CHR '','' # ?tail)"
      using Cons.prems(1) [of p k "CHR '','' # ?tail"] lx by (simp add: p)
    have fk: "length (join_comma (map member_text ps)) + 1 \<le> k"
      using tot lm by simp
    have re: "read_members k ?tail = Some (ps, rest)"
      using Cons.prems(1) False fk by (intro Cons.IH) simp_all
    show ?thesis unfolding j m using rv re by (simp add: mt read_quoted p)
  qed
qed

lemma read_value_text:
  "json_value v \<Longrightarrow> length (text_of v) \<le> n \<Longrightarrow> ends_number rest \<Longrightarrow>
   read_value n (text_of v @ rest) = Some (v, rest)"
proof (induction v arbitrary: n rest)
  case JUndefined
  then show ?case by simp
next
  case (JBigInt b)
  then show ?case by simp
next
  case JNull
  then obtain k where "n = Suc k" by (cases n) (auto simp: text_of_simps)
  then show ?case by (simp add: text_of_simps)
next
  case (JBool b)
  then obtain k where "n = Suc k" by (cases n; cases b) (auto simp: text_of_simps)
  then show ?case by (cases b) (simp_all add: text_of_simps)
next
  case (JNum i)
  then obtain k where n: "n = Suc k" using show_int_nonempty [of i] by (cases n) (auto simp: text_of_simps)
  have "read_value (Suc k) (show_int i @ rest) =
        map_option (\<lambda>(i, r). (JNum i, r)) (read_number (show_int i @ rest))"
    using hd_show_int [of i] show_int_nonempty [of i] by (intro read_value_number) simp_all
  then show ?case using JNum.prems(3) by (simp add: n text_of_simps read_number_show_int)
next
  case (JNonFinite x)
  then show ?case by simp
next
  case (JStr s)
  then obtain k where "n = Suc k" by (cases n) (auto simp: text_of_simps QuoteJSONString_def)
  then show ?case unfolding text_of_simps by (simp only: read_value_string)
next
  case (JArr xs)
  from JArr.prems(2) obtain k where n: "n = Suc k" by (cases n) (auto simp: text_of_simps)
  show ?case
  proof (cases "xs = []")
    case True
    then show ?thesis by (simp add: n text_of_simps)
  next
    case False
    have jv: "\<forall>x \<in> set xs. json_value x" using JArr.prems(1) by simp
    let ?body = "join_comma (map text_of xs) @ CHR '']'' # rest"
    obtain x xs' where xs: "xs = x # xs'" using False by (cases xs) auto
    have tne: "text_of x \<noteq> []" using jv xs by (simp add: text_of_nonempty)
    have "hd ?body = hd (text_of x)"
      using tne unfolding xs by (cases "text_of x") (simp_all add: join_comma_Cons)
    moreover have "starts_value (hd (text_of x))" using jv xs by (simp add: hd_text_of)
    ultimately have hdb: "hd ?body \<noteq> CHR '']''" using starts_value_not_close by metis
    have "read_elements k ?body = Some (xs, rest)"
    proof (rule read_elements_texts)
      show "read_value n (text_of x @ rest) = Some (x, rest)"
        if "x \<in> set xs" "length (text_of x) \<le> n" "ends_number rest" for x n rest
        using that jv JArr.IH [of x n rest] by simp
      show "xs \<noteq> []" by (rule False)
      show "\<forall>x \<in> set xs. text_of x \<noteq> []" using jv by (simp add: text_of_nonempty)
      show "length (join_comma (map text_of xs)) + 1 \<le> k"
        using JArr.prems(2) by (simp add: n text_of_simps)
    qed
    moreover have "read_value (Suc k) (CHR ''['' # ?body) =
                   map_option (\<lambda>(xs, r). (JArr xs, r)) (read_elements k ?body)"
      using hdb by (intro read_value_array) simp_all
    ultimately show ?thesis by (simp add: n text_of_simps)
  qed
next
  case (JObj ps)
  have jv: "\<forall>p \<in> set ps. json_value (snd p)" and ord: "enum_ordered (map fst ps)"
    using JObj.prems(1) by simp_all
  note t = text_of_obj [OF jv]
  from JObj.prems(2) obtain k where n: "n = Suc k" by (cases n) (auto simp: t)
  show ?case
  proof (cases "ps = []")
    case True
    show ?thesis unfolding t n using True by simp
  next
    case False
    let ?body = "join_comma (map member_text ps) @ CHR ''}'' # rest"
    obtain p ps' where ps: "ps = p # ps'" using False by (cases ps) auto
    have "hd ?body = CHR 0x22"
      unfolding ps by (simp add: join_comma_Cons member_text_def QuoteJSONString_def)
    then have hdb: "hd ?body \<noteq> CHR ''}''" by simp
    have "read_members k ?body = Some (ps, rest)"
    proof (rule read_members_texts)
      show "read_value n (text_of (snd p) @ rest) = Some (snd p, rest)"
        if "p \<in> set ps" "length (text_of (snd p)) \<le> n" "ends_number rest" for p n rest
      proof -
        have "snd p \<in> Basic_BNFs.snds p" by (cases p) simp
        then show ?thesis using that jv JObj.IH [of p "snd p" n rest] by simp
      qed
      show "ps \<noteq> []" by (rule False)
      show "length (join_comma (map member_text ps)) + 1 \<le> k"
        using JObj.prems(2) by (simp add: n t)
    qed
    moreover have "read_value (Suc k) (CHR ''{'' # ?body) =
         map_option (\<lambda>(ps, r). (JObj (foldl (\<lambda>obj (k, v). obj_set obj k v) [] ps), r)) (read_members k ?body)"
      using hdb by (intro read_value_object) simp_all
    ultimately show ?thesis by (simp add: n t fold_set_ordered [OF ord])
  qed
qed

lemma read_compact_stringify:
  assumes "json_value v" "JSON_text v = Some t"
  shows "read_compact t = Some v"
proof -
  have t: "t = text_of v" using assms by (simp add: json_value_stringify)
  have "read_value (length t) (text_of v @ []) = Some (v, [])"
    using assms(1) by (intro read_value_text) (simp_all add: t)
  then show ?thesis by (simp add: read_compact_def t)
qed

lemma JSON_text_inj:
  assumes "json_value v" "json_value w" "JSON_text v = JSON_text w"
  shows "v = w"
proof -
  obtain t where t: "JSON_text v = Some t" using assms(1) by (simp add: json_value_stringify)
  then have "JSON_text w = Some t" using assms(3) by simp
  with t assms(1,2) have "read_compact t = Some v" "read_compact t = Some w"
    by (auto intro: read_compact_stringify)
  then show ?thesis by simp
qed

lemma state_key_array: "state_key (JArr xs) = key_of (JSON_text (JArr xs))"
  by (simp add: state_key_def)

lemma state_key_single: "\<not> is_array x \<Longrightarrow> state_key x = state_key (JArr [x])"
  by (cases x) (simp_all add: state_key_def)

lemma key_of_json_inj:
  assumes "json_value v" "json_value w" "key_of (JSON_text v) = key_of (JSON_text w)"
  shows "v = w"
proof -
  have "JSON_text v = JSON_text w"
    using assms by (simp add: json_value_stringify key_of_def)
  with assms(1,2) show ?thesis by (rule JSON_text_inj)
qed

lemma json_value_writable: "json_value v \<Longrightarrow> writable v"
proof (induction v rule: json_value.induct)
  case (8 xs)
  then show ?case by (auto simp: writable_def)
next
  case (9 ps)
  then show ?case by (auto simp: writable_def)
qed (simp_all add: writable_def)

text \<open>
  C7, as the claim states it, fails: \<^verbatim>\<open>JSON.stringify\<close> writes \<^verbatim>\<open>NaN\<close>, the infinities
  and an \<^verbatim>\<open>undefined\<close> element as \<^verbatim>\<open>null\<close>, so different states share a key; and two
  objects with the same properties in a different order get different keys.
\<close>

theorem createStateKey_collides:
  "createStateKey (JArr [JNonFinite NaN]) = Returns ''[null]'' \<and>
   createStateKey (JArr [JNonFinite PosInfinity]) = Returns ''[null]'' \<and>
   JArr [JNonFinite NaN] \<noteq> JArr [JNonFinite PosInfinity] \<and>
   createStateKey JUndefined = createStateKey JNull \<and>
   createStateKey (JObj [(''a'', JNum 1), (''b'', JNum 2)]) \<noteq>
     createStateKey (JObj [(''b'', JNum 2), (''a'', JNum 1)])"
  by code_simp

text \<open>
  C7, amended. \<^verbatim>\<open>createStateKey\<close> is a function of its argument; a value that is not an
  array has the key of the one-element array that holds it; and two sequences of the
  values of \<open>json_value\<close> (\<^verbatim>\<open>null\<close>, booleans, safe integers, strings of code units below
  256, and arrays and objects of these, an object taken with the order of its properties)
  have a key each, and the same key only if they are the same sequence. The boundary
  markers are such strings, so this covers states that differ only in them. Fractions,
  numbers beyond the safe integers, the negative zero and other strings are outside this
  statement.
\<close>

theorem createStateKey_injective_on_json:
  "(\<not> is_array x \<longrightarrow> createStateKey x = createStateKey (JArr [x])) \<and>
   (json_value (JArr xs) \<longrightarrow> (\<exists>k. createStateKey (JArr xs) = Returns k)) \<and>
   (json_value (JArr xs) \<and> json_value (JArr ys) \<and> createStateKey (JArr xs) = createStateKey (JArr ys)
      \<longrightarrow> xs = ys)"
proof (intro conjI impI)
  show "createStateKey x = createStateKey (JArr [x])" if "\<not> is_array x"
    using that by (cases x) (simp_all add: createStateKey_def)
  show "\<exists>k. createStateKey (JArr xs) = Returns k" if "json_value (JArr xs)"
  proof (rule exI [of _ "state_key (JArr xs)"])
    show "createStateKey (JArr xs) = Returns (state_key (JArr xs))"
      using that by (intro createStateKey_writable json_value_writable)
  qed
  show "xs = ys"
    if a: "json_value (JArr xs) \<and> json_value (JArr ys) \<and> createStateKey (JArr xs) = createStateKey (JArr ys)"
  proof -
    from a have jx: "json_value (JArr xs)" by (rule conjunct1)
    from a have jy: "json_value (JArr ys)" by (rule conjunct1 [OF conjunct2])
    have kx: "createStateKey (JArr xs) = Returns (state_key (JArr xs))"
      using jx by (intro createStateKey_writable json_value_writable)
    have ky: "createStateKey (JArr ys) = Returns (state_key (JArr ys))"
      using jy by (intro createStateKey_writable json_value_writable)
    from a have "createStateKey (JArr xs) = createStateKey (JArr ys)"
      by (rule conjunct2 [OF conjunct2])
    then have "state_key (JArr xs) = state_key (JArr ys)" unfolding kx ky by simp
    then have "key_of (JSON_text (JArr xs)) = key_of (JSON_text (JArr ys))"
      unfolding state_key_array .
    with jx jy have "JArr xs = JArr ys" by (rule key_of_json_inj)
    then show ?thesis by simp
  qed
qed

theorem createStateKey_injective_on_json_witness:
  "createStateKey (JStr ''foo'') = createStateKey (JArr [JStr ''foo'']) \<and>
   createStateKey (JArr [JStr BEGIN, JStr ''foo'']) \<noteq> createStateKey (JArr [JStr ''foo'', JStr BEGIN]) \<and>
   createStateKey (JArr [JStr BEGIN, JStr BEGIN]) \<noteq> createStateKey (JArr [JStr BEGIN])"
proof -
  have j: "json_value (JArr [JStr BEGIN, JStr ''foo''])" "json_value (JArr [JStr ''foo'', JStr BEGIN])"
    "json_value (JArr [JStr BEGIN, JStr BEGIN])" "json_value (JArr [JStr BEGIN])"
    by simp_all
  have d: "[JStr BEGIN, JStr ''foo''] \<noteq> [JStr ''foo'', JStr BEGIN]" "[JStr BEGIN, JStr BEGIN] \<noteq> [JStr BEGIN]"
    by (simp_all add: BEGIN_def)
  note t1 = createStateKey_injective_on_json [of "JStr ''foo''" "[JStr BEGIN, JStr ''foo'']" "[JStr ''foo'', JStr BEGIN]"]
  note t2 = createStateKey_injective_on_json [of "JStr ''foo''" "[JStr BEGIN, JStr BEGIN]" "[JStr BEGIN]"]
  have 1: "createStateKey (JStr ''foo'') = createStateKey (JArr [JStr ''foo''])"
    using t1 [THEN conjunct1] by simp
  have 2: "createStateKey (JArr [JStr BEGIN, JStr ''foo'']) \<noteq> createStateKey (JArr [JStr ''foo'', JStr BEGIN])"
  proof
    assume "createStateKey (JArr [JStr BEGIN, JStr ''foo'']) = createStateKey (JArr [JStr ''foo'', JStr BEGIN])"
    with j(1,2) have "[JStr BEGIN, JStr ''foo''] = [JStr ''foo'', JStr BEGIN]"
      by (intro t1 [THEN conjunct2, THEN conjunct2, rule_format] conjI)
    with d(1) show False ..
  qed
  have 3: "createStateKey (JArr [JStr BEGIN, JStr BEGIN]) \<noteq> createStateKey (JArr [JStr BEGIN])"
  proof
    assume "createStateKey (JArr [JStr BEGIN, JStr BEGIN]) = createStateKey (JArr [JStr BEGIN])"
    with j(3,4) have "[JStr BEGIN, JStr BEGIN] = [JStr BEGIN]"
      by (intro t2 [THEN conjunct2, THEN conjunct2, rule_format] conjI)
    with d(2) show False ..
  qed
  show ?thesis using 1 2 3 by (intro conjI)
qed

section \<open>The counts of build\<close>

lemma padded_run_symbols:
  "set (padded_run n run) \<subseteq> insert (JStr BEGIN) (insert (JStr END) (set run))"
  by (auto simp: padded_run_def)

lemma window_symbols_of_run:
  assumes "w \<in> set (windows_of_run n run)"
  shows "set (fst w) \<subseteq> insert (JStr BEGIN) (insert (JStr END) (set run)) \<and>
         snd w \<in> insert (JStr BEGIN) (insert (JStr END) (set run))"
proof -
  from assms obtain i where i: "i < length run + 1"
    and w: "w = (take n (drop i (padded_run n run)), padded_run n run ! (i + n))"
    unfolding windows_of_run_def set_map set_upt by auto
  have "set (take n (drop i (padded_run n run))) \<subseteq> set (padded_run n run)"
    by (meson set_take_subset set_drop_subset subset_trans)
  then have 1: "set (fst w) \<subseteq> insert (JStr BEGIN) (insert (JStr END) (set run))"
    unfolding w using padded_run_symbols [of n run] by auto
  have "i + n < length (padded_run n run)" using i by (simp add: padded_run_def)
  then have "padded_run n run ! (i + n) \<in> set (padded_run n run)" by (rule nth_mem)
  then have 2: "snd w \<in> insert (JStr BEGIN) (insert (JStr END) (set run))"
    unfolding w using padded_run_symbols [of n run] by auto
  show ?thesis using 1 2 ..
qed

lemma window_symbols:
  assumes "w \<in> set (windows n runs)" "P (JStr BEGIN)" "P (JStr END)"
    and "\<forall>run \<in> set runs. \<forall>x \<in> set run. P x"
  shows "(\<forall>x \<in> set (fst w). P x) \<and> P (snd w)"
proof -
  from assms(1) obtain run where run: "run \<in> set runs" "w \<in> set (windows_of_run n run)"
    by (auto simp: windows_def)
  have all: "\<forall>x \<in> insert (JStr BEGIN) (insert (JStr END) (set run)). P x"
    using assms(2,3,4) run(1) by simp
  note s = window_symbols_of_run [OF run(2)]
  have "\<forall>x \<in> set (fst w). P x" using s all by blast
  moreover have "P (snd w)" using s all by blast
  ultimately show ?thesis ..
qed

lemma json_windows:
  assumes "\<forall>run \<in> set runs. \<forall>x \<in> set run. json_value x" "w \<in> set (windows n runs)"
  shows "json_value (JArr (fst w)) \<and> json_value (snd w)"
  using window_symbols [OF assms(2), of json_value] assms(1) by simp

lemma writable_windows:
  assumes "\<forall>run \<in> set runs. \<forall>x \<in> set run. writable x" "w \<in> set (windows n runs)"
  shows "writable (JArr (fst w)) \<and> writable (snd w)"
  using window_symbols [OF assms(2), of writable] assms(1) by (simp add: writable_JArr)

lemma window_keys_writable:
  assumes "writable (JArr (fst w)) \<and> writable (snd w)"
  shows "window_keys w = (Returns (fst (window_texts w)), Returns (snd (window_texts w)))"
  using assms
  by (simp add: window_keys_def window_texts_def createStateKey_writable JSON_stringify_writable)

lemma window_keys_texts:
  assumes "writable (JArr (fst w)) \<and> writable (snd w)"
  shows "window_keys w = (Returns sk, Returns fk) \<longleftrightarrow> window_texts w = (sk, fk)"
  unfolding window_keys_writable [OF assms] by (auto simp: prod_eq_iff)

lemma occurrences_texts:
  assumes "\<forall>run \<in> set runs. \<forall>x \<in> set run. writable x"
  shows "occurrences n runs sk fk = length (filter (\<lambda>w. window_texts w = (sk, fk)) (windows n runs))"
proof -
  have "filter (\<lambda>w. window_keys w = (Returns sk, Returns fk)) (windows n runs) =
        filter (\<lambda>w. window_texts w = (sk, fk)) (windows n runs)"
  proof (rule filter_cong [OF refl])
    fix w assume "w \<in> set (windows n runs)"
    then show "(window_keys w = (Returns sk, Returns fk)) = (window_texts w = (sk, fk))"
      using window_keys_texts [OF writable_windows [OF assms]] by blast
  qed
  then show ?thesis by (simp add: occurrences_def)
qed

lemma window_texts_inj:
  assumes "json_value (JArr (fst w)) \<and> json_value (snd w)" "json_value (JArr (fst w')) \<and> json_value (snd w')"
    and "window_texts w = window_texts w'"
  shows "w = w'"
proof -
  from assms(3) have k: "key_of (JSON_text (JArr (fst w))) = key_of (JSON_text (JArr (fst w')))"
    "key_of (JSON_text (snd w)) = key_of (JSON_text (snd w'))"
    by (simp_all add: window_texts_def state_key_array)
  have "JArr (fst w) = JArr (fst w')" using assms(1,2) k(1) by (intro key_of_json_inj) simp_all
  moreover have "snd w = snd w'" using assms(1,2) k(2) by (intro key_of_json_inj) simp_all
  ultimately show ?thesis by (simp add: prod_eq_iff)
qed

lemma texts_count_list:
  assumes "\<forall>run \<in> set runs. \<forall>x \<in> set run. json_value x" "w \<in> set (windows n runs)"
  shows "length (filter (\<lambda>w'. window_texts w' = window_texts w) (windows n runs)) =
         count_list (windows n runs) w"
proof -
  have "filter (\<lambda>w'. window_texts w' = window_texts w) (windows n runs) = filter ((=) w) (windows n runs)"
  proof (rule filter_cong [OF refl])
    fix w' assume "w' \<in> set (windows n runs)"
    then show "(window_texts w' = window_texts w) = (w = w')"
      using window_texts_inj [OF json_windows [OF assms(1)] json_windows [OF assms(1)], of w' n w n] assms(2)
      by auto
  qed
  then show ?thesis by (simp add: count_list_eq_length_filter)
qed

text \<open>
  C1, as the claim states it, fails: the table is keyed by the texts \<^verbatim>\<open>JSON.stringify\<close>
  writes, and different symbols can have the same text. In the corpus
  \<^verbatim>\<open>[[NaN], [Infinity]]\<close> the windows \<^verbatim>\<open>([BEGIN], NaN)\<close> and \<^verbatim>\<open>([BEGIN], Infinity)\<close> occur
  once each, and \<^verbatim>\<open>build\<close> stores one record for both, with the value \<^verbatim>\<open>NaN\<close> and the
  count 2.
\<close>

theorem build_merges_symbols_of_one_text:
  "build (JArr [JArr [JNonFinite NaN], JArr [JNonFinite PosInfinity]]) 1 =
     Returns [(''[\"@@MARKOV_CHAIN_BEGIN\"]'', [(''null'', \<lparr>value = JNonFinite NaN, count = 2\<rparr>)]),
              (''[null]'', [(''\"@@MARKOV_CHAIN_END\"'', \<lparr>value = JStr END, count = 2\<rparr>)])] \<and>
   createStateKey (JArr [JStr BEGIN]) = Returns ''[\"@@MARKOV_CHAIN_BEGIN\"]'' \<and>
   JSON_stringify (JNonFinite PosInfinity) = Returns (Some ''null'') \<and>
   count_list (windows 1 [[JNonFinite NaN], [JNonFinite PosInfinity]]) ([JStr BEGIN], JNonFinite PosInfinity) = 1 \<and>
   count_list (windows 1 [[JNonFinite NaN], [JNonFinite PosInfinity]]) ([JStr BEGIN], JNonFinite NaN) = 1"
  by code_simp

text \<open>
  C1, amended. For a corpus that is an array of arrays and a state size \<open>n \<ge> 1\<close>: a table
  that \<^verbatim>\<open>build\<close> returns holds, under a state key and a follow key, the number of windows
  of the padded runs with these keys; there is no record where there is no such window,
  and the value of a record is the follow symbol of such a window. When the symbols are
  values of \<open>json_value\<close>, the record under the keys of a window holds the follow symbol of
  that window and the number of times the window occurs. \<^verbatim>\<open>build\<close> returns a table when
  \<^verbatim>\<open>JSON.stringify\<close> writes every symbol. For the corpus of the test and \<open>n = 2\<close> the table
  is exactly the eight expected transitions.
\<close>

theorem build_counts_every_window:
  assumes "0 < n"
  shows "(\<forall>m. build (JArr (map JArr runs)) (int n) = Returns m \<longrightarrow>
      (\<forall>stateKey followKey.
         map_option count (lookup_follow m stateKey followKey) =
           (if occurrences n runs stateKey followKey = 0 then None
            else Some (int (occurrences n runs stateKey followKey)))) \<and>
      (\<forall>stateKey followKey r. lookup_follow m stateKey followKey = Some r \<longrightarrow>
         (\<exists>w \<in> set (windows n runs).
            window_keys w = (Returns stateKey, Returns followKey) \<and> value r = snd w)) \<and>
      ((\<forall>run \<in> set runs. \<forall>x \<in> set run. json_value x) \<longrightarrow>
         (\<forall>w \<in> set (windows n runs). \<exists>stateKey followKey.
            window_keys w = (Returns stateKey, Returns followKey) \<and>
            lookup_follow m stateKey followKey =
              Some \<lparr>value = snd w, count = int (count_list (windows n runs) w)\<rparr>))) \<and>
     ((\<forall>run \<in> set runs. \<forall>x \<in> set run. writable x) \<longrightarrow>
        (\<exists>m. build (JArr (map JArr runs)) (int n) = Returns m)) \<and>
     build (JArr (map JArr scenario_corpus)) 2 = Returns scenario_table"
proof (intro conjI allI impI ballI)
  show "build (JArr (map JArr scenario_corpus)) 2 = Returns scenario_table" by (rule build_scenario)
  show "\<exists>m. build (JArr (map JArr runs)) (int n) = Returns m"
    if "\<forall>run \<in> set runs. \<forall>x \<in> set run. writable x"
    using build_writable [OF assms that] by (rule exI)
next
  fix m
  assume b: "build (JArr (map JArr runs)) (int n) = Returns m"
  let ?m = "foldl count_window [] (windows n runs)"
  from build_windows [OF assms b] have m: "m = ?m"
    and wr: "\<forall>run \<in> set runs. \<forall>x \<in> set run. writable x"
    by simp_all
  have empty: "lookup_follow [] sk fk = None" for sk fk
    by (simp add: lookup_follow_def obj_get_Nil)
  have look: "lookup_follow ?m sk fk =
      (let k = length (filter (\<lambda>w. window_texts w = (sk, fk)) (windows n runs)) in
       if k = 0 then None
       else Some \<lparr>value = snd (hd (filter (\<lambda>w. window_texts w = (sk, fk)) (windows n runs))),
                   count = int k\<rparr>)" for sk fk
    by (simp add: lookup_foldl_count_window empty Let_def)
  have counts: "map_option count (lookup_follow ?m sk fk) =
          (if occurrences n runs sk fk = 0 then None
           else Some (int (occurrences n runs sk fk)))" for sk fk
    by (simp add: look occurrences_texts [OF wr] Let_def)
  have vals: "\<exists>w \<in> set (windows n runs). window_keys w = (Returns sk, Returns fk) \<and> value r = snd w"
    if "lookup_follow ?m sk fk = Some r" for sk fk r
  proof -
    let ?ws = "filter (\<lambda>w. window_texts w = (sk, fk)) (windows n runs)"
    from that have ne: "?ws \<noteq> []" and r: "value r = snd (hd ?ws)"
      by (auto simp: look Let_def split: if_splits)
    from ne have "hd ?ws \<in> set ?ws" by (rule hd_in_set)
    then have h: "hd ?ws \<in> set (windows n runs)" "window_texts (hd ?ws) = (sk, fk)" by auto
    have "window_keys (hd ?ws) = (Returns sk, Returns fk)"
      using window_keys_texts [OF writable_windows [OF wr h(1)]] h(2) by simp
    with r h(1) show ?thesis by blast
  qed
  have syms: "\<exists>sk fk. window_keys w = (Returns sk, Returns fk) \<and>
             lookup_follow ?m sk fk = Some \<lparr>value = snd w, count = int (count_list (windows n runs) w)\<rparr>"
    if js: "\<forall>run \<in> set runs. \<forall>x \<in> set run. json_value x" and w: "w \<in> set (windows n runs)" for w
  proof -
    let ?sk = "fst (window_texts w)" and ?fk = "snd (window_texts w)"
    have wk: "window_keys w = (Returns ?sk, Returns ?fk)"
      by (rule window_keys_writable [OF writable_windows [OF wr w]])
    let ?ws = "filter (\<lambda>w'. window_texts w' = (?sk, ?fk)) (windows n runs)"
    have len: "length ?ws = count_list (windows n runs) w"
      using texts_count_list [OF js w] by simp
    have cpos: "count_list (windows n runs) w \<noteq> 0" using w by (simp add: count_list_0_iff)
    then have pos: "length ?ws \<noteq> 0" using len by simp
    then have ne: "?ws \<noteq> []" by simp
    from ne have "hd ?ws \<in> set ?ws" by (rule hd_in_set)
    then have h: "hd ?ws \<in> set (windows n runs)" "window_texts (hd ?ws) = window_texts w" by auto
    have "hd ?ws = w"
      by (rule window_texts_inj [OF json_windows [OF js h(1)] json_windows [OF js w] h(2)])
    then have "lookup_follow ?m ?sk ?fk = Some \<lparr>value = snd w, count = int (count_list (windows n runs) w)\<rparr>"
      using pos len cpos unfolding look [of ?sk ?fk] Let_def by simp
    with wk show ?thesis by blast
  qed
  show "map_option count (lookup_follow m sk fk) =
          (if occurrences n runs sk fk = 0 then None
           else Some (int (occurrences n runs sk fk)))" for sk fk
    unfolding m by (rule counts)
  show "\<exists>w \<in> set (windows n runs). window_keys w = (Returns sk, Returns fk) \<and> value r = snd w"
    if "lookup_follow m sk fk = Some r" for sk fk r
    using that unfolding m by (rule vals)
  show "\<exists>sk fk. window_keys w = (Returns sk, Returns fk) \<and>
             lookup_follow m sk fk = Some \<lparr>value = snd w, count = int (count_list (windows n runs) w)\<rparr>"
    if "\<forall>run \<in> set runs. \<forall>x \<in> set run. json_value x" "w \<in> set (windows n runs)" for w
    using that unfolding m by (rule syms)
qed

theorem build_counts_every_window_witness:
  "\<exists>m. build (JArr (map JArr scenario_corpus)) 2 = Returns m \<and>
     map_option count (lookup_follow m ''[\"@@MARKOV_CHAIN_BEGIN\",\"@@MARKOV_CHAIN_BEGIN\"]'' ''\"foo\"'')
       = Some 2 \<and>
     lookup_follow m ''[\"foo\",\"qux\"]'' ''\"bar\"'' = None"
proof -
  have o1: "occurrences 2 scenario_corpus ''[\"@@MARKOV_CHAIN_BEGIN\",\"@@MARKOV_CHAIN_BEGIN\"]'' ''\"foo\"'' = 2"
    by code_simp
  have o2: "occurrences 2 scenario_corpus ''[\"foo\",\"qux\"]'' ''\"bar\"'' = 0"
    by code_simp
  have w: "\<forall>run \<in> set scenario_corpus. \<forall>x \<in> set run. writable x"
    by (simp add: scenario_corpus_def)
  note t = build_counts_every_window [of 2 scenario_corpus]
  from t w obtain m where m: "build (JArr (map JArr scenario_corpus)) (int 2) = Returns m"
    by auto
  with t have c: "\<And>sk fk. map_option count (lookup_follow m sk fk) =
          (if occurrences 2 scenario_corpus sk fk = 0 then None
           else Some (int (occurrences 2 scenario_corpus sk fk)))"
    by auto
  show ?thesis
    using m c [of "''[\"@@MARKOV_CHAIN_BEGIN\",\"@@MARKOV_CHAIN_BEGIN\"]''" "''\"foo\"''"]
      c [of "''[\"foo\",\"qux\"]''" "''\"bar\"''"]
    unfolding o1 o2 by (intro exI [of _ m]) simp
qed

section \<open>Properties of fromJSON\<close>

lemma destructure_pair_two [simp]: "destructure_pair (JArr [a, b]) = Returns (a, b)"
  by (simp add: destructure_pair_def array_get_def)

lemma property_key_string: "k \<noteq> ''__proto__'' \<Longrightarrow> property_key (JStr k) = Returns k"
  by (simp add: property_key_def)

lemma object_assign_plain: "plain_record r \<Longrightarrow> object_assign r = Returns r"
  by (cases r) (simp_all add: plain_record_def object_assign_def)

lemma follow_map_of_written:
  assumes "\<forall>e \<in> set fes. fst e \<noteq> ''__proto__'' \<and> plain_record (snd e)"
  shows "follow_map_of acc (map (\<lambda>(fk, r). JArr [JStr fk, r]) fes) = Returns (assign_all acc fes)"
  using assms
proof (induction fes arbitrary: acc)
  case Nil
  show ?case by (simp add: assign_all_def)
next
  case (Cons e fes)
  obtain fk r where e: "e = (fk, r)" by (cases e)
  have "fk \<noteq> ''__proto__''" "plain_record r" using Cons.prems by (simp_all add: e)
  then show ?case
    using Cons.IH [of "obj_set acc fk r"] Cons.prems
    by (simp add: e property_key_string object_assign_plain assign_all_def)
qed

lemma states_of_written:
  assumes "\<forall>e \<in> set tbl. good_follows (snd e)"
  shows "states_of (map entry_js tbl) = Returns (map (\<lambda>(k, fes). (JStr k, JObj (assign_all [] fes))) tbl)"
  using assms
proof (induction tbl)
  case Nil
  show ?case by simp
next
  case (Cons e tbl)
  obtain k fes where e: "e = (k, fes)" by (cases e)
  have g: "\<forall>x \<in> set fes. fst x \<noteq> ''__proto__'' \<and> plain_record (snd x)"
    using Cons.prems by (simp add: e good_follows_def)
  have le: "loop_elements (JArr (map (\<lambda>(fk, r). JArr [JStr fk, r]) fes)) =
            Returns (map (\<lambda>(fk, r). JArr [JStr fk, r]) fes)"
    by (simp add: loop_elements_def)
  show ?case
    using Cons.IH Cons.prems
    by (simp add: e entry_js_def le follow_map_of_written [OF g])
qed

lemma reduce_states_written:
  assumes "\<forall>e \<in> set kvs. fst e \<noteq> ''__proto__''"
  shows "reduce_states acc (map (\<lambda>(k, v). (JStr k, v)) kvs) = Returns (assign_all acc kvs)"
  using assms
proof (induction kvs arbitrary: acc)
  case Nil
  show ?case by (simp add: assign_all_def)
next
  case (Cons e kvs)
  obtain k v where e: "e = (k, v)" by (cases e)
  have "k \<noteq> ''__proto__''" using Cons.prems by (simp add: e)
  then show ?case
    using Cons.IH [of "obj_set acc k v"] Cons.prems
    by (simp add: e property_key_string assign_all_def)
qed

lemma hydrate_written:
  assumes "obj_get ps ''stateSize'' = Some s" "obj_get ps ''model'' = Some (JArr (map entry_js tbl))"
    and "\<forall>e \<in> set tbl. fst e \<noteq> ''__proto__'' \<and> good_follows (snd e)"
  shows "hydrate (JObj ps) =
         Chain_new (JObj (assign_all [] (map (\<lambda>(k, fes). (k, JObj (assign_all [] fes))) tbl))) s"
proof -
  have st: "states_of (map entry_js tbl) = Returns (map (\<lambda>(k, fes). (JStr k, JObj (assign_all [] fes))) tbl)"
    using assms(3) by (intro states_of_written) simp
  have eq: "map (\<lambda>(k, fes). (JStr k, JObj (assign_all [] fes))) tbl =
        map (\<lambda>(k, v). (JStr k, v)) (map (\<lambda>(k, fes). (k, JObj (assign_all [] fes))) tbl)"
    by (simp add: split_def)
  have rs0: "reduce_states [] (map (\<lambda>(k, v). (JStr k, v)) (map (\<lambda>(k, fes). (k, JObj (assign_all [] fes))) tbl)) =
        Returns (assign_all [] (map (\<lambda>(k, fes). (k, JObj (assign_all [] fes))) tbl))"
    using assms(3) by (intro reduce_states_written) (auto simp: split_def)
  have rs: "reduce_states [] (map (\<lambda>(k, fes). (JStr k, JObj (assign_all [] fes))) tbl) =
        Returns (assign_all [] (map (\<lambda>(k, fes). (k, JObj (assign_all [] fes))) tbl))"
    unfolding eq by (rule rs0)
  show ?thesis
    using assms(1,2) by (simp add: hydrate_def get_field_def loop_elements_def st rs)
qed

lemma obj_get_map_values: "obj_get (map (\<lambda>(k, v). (k, g v)) obj) k = map_option g (obj_get obj k)"
  by (induction obj) (auto simp: obj_get_def)

lemma obj_update_map_values:
  "obj_update (map (\<lambda>(k, v). (k, g v)) obj) k (g v) = map (\<lambda>(k, v). (k, g v)) (obj_update obj k v)"
  by (induction obj) auto

lemma obj_insert_index_map_values:
  "obj_insert_index (map (\<lambda>(k, v). (k, g v)) obj) i k (g v) =
   map (\<lambda>(k, v). (k, g v)) (obj_insert_index obj i k v)"
  by (induction obj) (auto split: option.splits)

lemma obj_set_map_values:
  "obj_set (map (\<lambda>(k, v). (k, g v)) obj) k (g v) = map (\<lambda>(k, v). (k, g v)) (obj_set obj k v)"
  by (simp add: obj_set_def obj_get_map_values obj_update_map_values obj_insert_index_map_values
           split: option.splits)

lemma assign_all_map_values:
  "assign_all (map (\<lambda>(k, v). (k, g v)) acc) (map (\<lambda>(k, v). (k, g v)) kvs) =
   map (\<lambda>(k, v). (k, g v)) (assign_all acc kvs)"
proof (induction kvs arbitrary: acc)
  case Nil
  show ?case by (simp add: assign_all_def)
next
  case (Cons e kvs)
  obtain k v where e: "e = (k, v)" by (cases e)
  show ?case
    using Cons.IH [of "obj_set acc k v"]
    by (simp add: e assign_all_def obj_set_map_values)
qed

lemma set_assign_all: "set (assign_all acc kvs) \<subseteq> set acc \<union> set kvs"
proof (induction kvs arbitrary: acc)
  case Nil
  show ?case by (simp add: assign_all_def)
next
  case (Cons e kvs)
  obtain k v where e: "e = (k, v)" by (cases e)
  have "set (assign_all (obj_set acc k v) kvs) \<subseteq> set (obj_set acc k v) \<union> set kvs"
    by (rule Cons.IH)
  moreover have "set (obj_set acc k v) \<subseteq> insert (k, v) (set acc)" by (rule set_obj_set)
  moreover have "assign_all acc (e # kvs) = assign_all (obj_set acc k v) kvs"
    by (simp add: e assign_all_def)
  ultimately show ?case unfolding e by auto
qed

lemma those_decode:
  assumes "\<forall>e \<in> set xs. f (snd e) \<noteq> None"
  shows "those (map (\<lambda>(k, v). map_option (Pair k) (f v)) xs) = Some (map (\<lambda>(k, v). (k, the (f v))) xs)"
  using assms by (induction xs) auto

lemma obj_get_assign_all:
  assumes "distinct (map fst kvs)"
  shows "obj_get (assign_all acc kvs) k = (case map_of kvs k of None \<Rightarrow> obj_get acc k | Some v \<Rightarrow> Some v)"
  using assms
proof (induction kvs arbitrary: acc)
  case Nil
  show ?case by (simp add: assign_all_def)
next
  case (Cons e kvs)
  obtain k0 v0 where e: "e = (k0, v0)" by (cases e)
  have d: "distinct (map fst kvs)" and notin: "k0 \<notin> fst ` set kvs" using Cons.prems by (simp_all add: e)
  have none: "map_of kvs k0 = None" using notin by (simp add: map_of_eq_None_iff)
  have step: "assign_all acc (e # kvs) = assign_all (obj_set acc k0 v0) kvs"
    by (simp add: e assign_all_def)
  show ?case
    unfolding step Cons.IH [OF d] by (simp add: e obj_get_set none split: option.splits)
qed

lemma map_of_assign_all:
  "distinct (map fst kvs) \<Longrightarrow> map_of (assign_all [] kvs) = map_of kvs"
proof
  fix k
  assume "distinct (map fst kvs)"
  then have "obj_get (assign_all [] kvs) k = (case map_of kvs k of None \<Rightarrow> obj_get [] k | Some v \<Rightarrow> Some v)"
    by (rule obj_get_assign_all)
  then show "map_of (assign_all [] kvs) k = map_of kvs k"
    by (simp add: obj_get_def split: option.splits)
qed

lemma as_follow_plain: "as_follow r \<noteq> None \<Longrightarrow> plain_record r"
  by (auto simp: as_follow_def plain_record_def split: jsval.splits option.splits if_splits)

lemma as_follow_set_assign_all:
  assumes "\<forall>e \<in> set fes. as_follow (snd e) \<noteq> None"
  shows "as_follow_set (JObj (assign_all [] fes)) =
         Some (assign_all [] (map (\<lambda>(fk, r). (fk, the (as_follow r))) fes))"
proof -
  have "\<forall>e \<in> set (assign_all [] fes). as_follow (snd e) \<noteq> None"
    using assms set_assign_all [of "[]" fes] by auto
  then have "as_follow_set (JObj (assign_all [] fes)) =
        Some (map (\<lambda>(fk, r). (fk, the (as_follow r))) (assign_all [] fes))"
    unfolding as_follow_set_def by (simp add: those_decode)
  also have "map (\<lambda>(fk, r). (fk, the (as_follow r))) (assign_all [] fes) =
        assign_all [] (map (\<lambda>(fk, r). (fk, the (as_follow r))) fes)"
    using assign_all_map_values [of "\<lambda>r. the (as_follow r)" "[]" fes] by simp
  finally show ?thesis .
qed

lemma as_table_assign_all:
  assumes "\<forall>e \<in> set tbl. \<forall>x \<in> set (snd e). as_follow (snd x) \<noteq> None"
  shows "as_table (JObj (assign_all [] (map (\<lambda>(k, fes). (k, JObj (assign_all [] fes))) tbl))) =
         Some (hydrated tbl)"
proof -
  let ?objs = "map (\<lambda>(k, fes). (k, JObj (assign_all [] fes))) tbl"
  let ?g = "\<lambda>v. the (as_follow_set v)"
  have each: "\<forall>e \<in> set ?objs. as_follow_set (snd e) \<noteq> None"
    using assms by (auto simp: as_follow_set_assign_all)
  then have "\<forall>e \<in> set (assign_all [] ?objs). as_follow_set (snd e) \<noteq> None"
    using set_assign_all [of "[]" ?objs] by auto
  then have "as_table (JObj (assign_all [] ?objs)) = Some (map (\<lambda>(k, v). (k, ?g v)) (assign_all [] ?objs))"
    unfolding as_table_def by (simp add: those_decode)
  also have "map (\<lambda>(k, v). (k, ?g v)) (assign_all [] ?objs) = assign_all [] (map (\<lambda>(k, v). (k, ?g v)) ?objs)"
    using assign_all_map_values [of ?g "[]" ?objs] by simp
  also have "map (\<lambda>(k, v). (k, ?g v)) ?objs =
             map (\<lambda>(k, fes). (k, assign_all [] (map (\<lambda>(fk, r). (fk, the (as_follow r))) fes))) tbl"
    using assms by (auto simp: as_follow_set_assign_all)
  finally show ?thesis by (simp add: hydrated_def)
qed

lemma hydrate_shaped:
  assumes "obj_get ps ''stateSize'' = Some s" "obj_get ps ''model'' = Some (JArr (map entry_js tbl))"
    and "shaped tbl"
  shows "hydrate (JObj ps) =
         (case state_size_of s of None \<Rightarrow> Unmodelled
          | Some n \<Rightarrow> Returns \<lparr>stateSize = n, model = hydrated tbl\<rparr>)"
proof -
  have g: "\<forall>e \<in> set tbl. fst e \<noteq> ''__proto__'' \<and> good_follows (snd e)"
    using assms(3) by (auto simp: shaped_def good_follows_def as_follow_plain)
  have t: "as_table (JObj (assign_all [] (map (\<lambda>(k, fes). (k, JObj (assign_all [] fes))) tbl))) =
           Some (hydrated tbl)"
    using assms(3) by (intro as_table_assign_all) (auto simp: shaped_def)
  show ?thesis
    unfolding hydrate_written [OF assms(1,2) g] Chain_new_def t by (simp split: option.splits)
qed

lemma follow_entry_shapeD:
  assumes "follow_entry_shape e"
  obtains fk r where "e = JArr [JStr fk, r]" "fk \<noteq> ''__proto__''" "as_follow r \<noteq> None"
  using assms by (rule follow_entry_shape.elims(2)) simp

lemma state_entry_shapeD:
  assumes "state_entry_shape e"
  obtains k follow where "e = JArr [JStr k, JArr follow]" "k \<noteq> ''__proto__''"
    "list_all follow_entry_shape follow"
  using assms by (rule state_entry_shape.elims(2)) simp

lemma follow_entries_shaped:
  assumes "list_all follow_entry_shape es"
  shows "\<exists>fes. es = map (\<lambda>(fk, r). JArr [JStr fk, r]) fes \<and>
               (\<forall>x \<in> set fes. fst x \<noteq> ''__proto__'' \<and> as_follow (snd x) \<noteq> None)"
  using assms
proof (induction es)
  case Nil
  show ?case by simp
next
  case (Cons e es)
  from Cons.prems have "follow_entry_shape e" by simp
  then obtain fk r where e: "e = JArr [JStr fk, r]" "fk \<noteq> ''__proto__''" "as_follow r \<noteq> None"
    by (rule follow_entry_shapeD)
  from Cons.prems have "list_all follow_entry_shape es" by simp
  then have "\<exists>fes. es = map (\<lambda>(fk, r). JArr [JStr fk, r]) fes \<and>
               (\<forall>x \<in> set fes. fst x \<noteq> ''__proto__'' \<and> as_follow (snd x) \<noteq> None)"
    by (rule Cons.IH)
  then obtain fes where fes: "es = map (\<lambda>(fk, r). JArr [JStr fk, r]) fes"
      "\<forall>x \<in> set fes. fst x \<noteq> ''__proto__'' \<and> as_follow (snd x) \<noteq> None"
    by blast
  show ?case
  proof (rule exI [of _ "(fk, r) # fes"])
    show "e # es = map (\<lambda>(fk, r). JArr [JStr fk, r]) ((fk, r) # fes) \<and>
        (\<forall>x \<in> set ((fk, r) # fes). fst x \<noteq> ''__proto__'' \<and> as_follow (snd x) \<noteq> None)"
      using e(2,3) fes(2) by (simp add: e(1) fes(1))
  qed
qed

lemma state_entries_shaped:
  assumes "list_all state_entry_shape es"
  shows "\<exists>tbl. es = map entry_js tbl \<and> shaped tbl"
  using assms
proof (induction es)
  case Nil
  show ?case by (simp add: shaped_def)
next
  case (Cons e es)
  from Cons.prems have "state_entry_shape e" by simp
  then obtain k follow where e: "e = JArr [JStr k, JArr follow]" "k \<noteq> ''__proto__''"
      "list_all follow_entry_shape follow"
    by (rule state_entry_shapeD)
  from follow_entries_shaped [OF e(3)] obtain fes where
    fes: "follow = map (\<lambda>(fk, r). JArr [JStr fk, r]) fes"
      "\<forall>x \<in> set fes. fst x \<noteq> ''__proto__'' \<and> as_follow (snd x) \<noteq> None"
    by blast
  from Cons.prems have "list_all state_entry_shape es" by simp
  then have "\<exists>tbl. es = map entry_js tbl \<and> shaped tbl" by (rule Cons.IH)
  then obtain tbl where tbl: "es = map entry_js tbl" "shaped tbl" by blast
  have s: "shaped ((k, fes) # tbl)"
    using e(2) fes(2) tbl(2) unfolding shaped_def by simp
  have m: "e # es = map entry_js ((k, fes) # tbl)"
    by (simp add: e(1) fes(1) tbl(1) entry_js_def)
  show ?case
  proof (rule exI [of _ "(k, fes) # tbl"])
    show "e # es = map entry_js ((k, fes) # tbl) \<and> shaped ((k, fes) # tbl)"
      by (rule conjI [OF m s])
  qed
qed

lemma state_size_of_number: "state_size_of (JNum n) = Some (or_default n)"
  by (simp add: state_size_of_def or_default_def)

lemma hydrate_expected_shape:
  assumes "expected_shape v"
  shows "\<exists>c. hydrate v = Returns c"
proof -
  from assms obtain ps n entries where v: "v = JObj ps"
      and s: "obj_get ps ''stateSize'' = Some (JNum n)"
      and m: "obj_get ps ''model'' = Some (JArr entries)"
      and es: "list_all state_entry_shape entries"
    unfolding expected_shape_def by (auto split: jsval.splits option.splits)
  from state_entries_shaped [OF es] obtain tbl where tbl: "entries = map entry_js tbl" "shaped tbl"
    by blast
  have "hydrate (JObj ps) = Returns \<lparr>stateSize = or_default n, model = hydrated tbl\<rparr>"
    using hydrate_shaped [OF s m [unfolded tbl(1)] tbl(2)] by (simp add: state_size_of_number)
  then show ?thesis by (simp add: v)
qed

lemma get_field_throws: "get_field x name = Throws e \<Longrightarrow> e = TypeError"
  by (auto simp: get_field_def split: jsval.splits)

lemma loop_elements_throws: "loop_elements x = Throws e \<Longrightarrow> e = TypeError"
  by (auto simp: loop_elements_def split: jsval.splits option.splits)

lemma destructure_pair_throws: "destructure_pair x = Throws e \<Longrightarrow> e = TypeError"
  by (auto simp: destructure_pair_def split: jsval.splits)

lemma property_key_throws: "property_key x \<noteq> Throws e"
  by (auto simp: property_key_def Let_def split: jsval.splits option.splits if_splits)

lemma object_assign_throws: "object_assign x \<noteq> Throws e"
  by (auto simp: object_assign_def split: jsval.splits if_splits)

lemma follow_map_of_throws: "follow_map_of acc es = Throws e \<Longrightarrow> e = TypeError"
proof (induction es arbitrary: acc)
  case Nil
  then show ?case by simp
next
  case (Cons x es)
  from Cons.prems consider
      "destructure_pair x = Throws e"
    | p where "destructure_pair x = Returns p" "object_assign (snd p) = Throws e"
    | p cp where "destructure_pair x = Returns p" "object_assign (snd p) = Returns cp"
        "property_key (fst p) = Throws e"
    | p cp k where "destructure_pair x = Returns p" "object_assign (snd p) = Returns cp"
        "property_key (fst p) = Returns k" "follow_map_of (obj_set acc k cp) es = Throws e"
    by (auto simp: and_then_Throws_iff split_def)
  then show ?case
  proof cases
    case 1
    then show ?thesis by (rule destructure_pair_throws)
  next
    case 2
    then show ?thesis by (simp add: object_assign_throws)
  next
    case 3
    then show ?thesis by (simp add: property_key_throws)
  next
    case 4
    from 4(4) show ?thesis by (rule Cons.IH)
  qed
qed

lemma states_of_throws: "states_of es = Throws e \<Longrightarrow> e = TypeError"
proof (induction es)
  case Nil
  then show ?case by simp
next
  case (Cons x es)
  from Cons.prems consider
      "destructure_pair x = Throws e"
    | m where "loop_elements m = Throws e"
    | fe where "follow_map_of [] fe = Throws e"
    | "states_of es = Throws e"
    by (auto simp: and_then_Throws_iff split_def)
  then show ?case
  proof cases
    case 1
    then show ?thesis by (rule destructure_pair_throws)
  next
    case 2
    then show ?thesis by (rule loop_elements_throws)
  next
    case 3
    then show ?thesis by (rule follow_map_of_throws)
  next
    case 4
    then show ?thesis by (rule Cons.IH)
  qed
qed

lemma reduce_states_throws: "reduce_states acc sts \<noteq> Throws e"
proof (induction sts arbitrary: acc)
  case Nil
  show ?case by simp
next
  case (Cons x sts)
  obtain key v where x: "x = (key, v)" by (cases x)
  show ?case using Cons by (simp add: x and_then_Throws_iff property_key_throws)
qed

lemma Chain_new_object_throws: "Chain_new (JObj acc) opt \<noteq> Throws e"
  by (simp add: Chain_new_def split: option.splits)

lemma hydrate_throws:
  assumes "hydrate v = Throws e"
  shows "e = TypeError"
proof -
  from assms consider
      "get_field v ''stateSize'' = Throws e"
    | "get_field v ''model'' = Throws e"
    | m where "loop_elements m = Throws e"
    | es where "states_of es = Throws e"
    | sts where "reduce_states [] sts = Throws e"
    | acc opt where "Chain_new (JObj acc) opt = Throws e"
    unfolding hydrate_def and_then_Throws_iff by blast
  then show ?thesis
  proof cases
    case 1
    then show ?thesis by (rule get_field_throws)
  next
    case 2
    then show ?thesis by (rule get_field_throws)
  next
    case 3
    then show ?thesis by (rule loop_elements_throws)
  next
    case 4
    then show ?thesis by (rule states_of_throws)
  next
    case 5
    then show ?thesis by (simp add: reduce_states_throws)
  next
    case 6
    then show ?thesis by (simp add: Chain_new_object_throws)
  qed
qed

text \<open>
  C8, as the claim states it, fails. \<^verbatim>\<open>Chain.fromJSON\<close> checks nothing: the text
  \<^verbatim>\<open>{"model":[]}\<close>, which has no \<^verbatim>\<open>stateSize\<close>, is read into a chain with the default
  state size and an empty model.
\<close>

theorem fromJSON_accepts_missing_stateSize:
  "read_compact ''{\"model\":[]}'' = Some (JObj [(''model'', JArr [])]) \<and>
   \<not> expected_shape (JObj [(''model'', JArr [])]) \<and>
   fromJSON read_compact ''{\"model\":[]}'' = Returns \<lparr>stateSize = 1, model = []\<rparr>"
  by code_simp

text \<open>
  C8, amended. \<^verbatim>\<open>Chain.fromJSON\<close> has no error of its own. A text that \<^verbatim>\<open>JSON.parse\<close>
  rejects raises its SyntaxError; parsed data of the form \<^verbatim>\<open>toJSON\<close> writes always gives a
  chain; and the only other error is a TypeError, on parsed data that is not of that form.
  A call that throws returns nothing.
\<close>

theorem fromJSON_failures:
  "(parse jsonData = None \<longrightarrow> fromJSON parse jsonData = Throws SyntaxError) \<and>
   (\<forall>v. parse jsonData = Some v \<and> expected_shape v \<longrightarrow> (\<exists>c. fromJSON parse jsonData = Returns c)) \<and>
   (\<forall>e. fromJSON parse jsonData = Throws e \<longrightarrow>
      (parse jsonData = None \<and> e = SyntaxError) \<or>
      (\<exists>v. parse jsonData = Some v \<and> \<not> expected_shape v \<and> e = TypeError))"
proof (intro conjI allI impI)
  assume "parse jsonData = None"
  then show "fromJSON parse jsonData = Throws SyntaxError" by (simp add: fromJSON_def)
next
  fix v assume "parse jsonData = Some v \<and> expected_shape v"
  then show "\<exists>c. fromJSON parse jsonData = Returns c"
    using hydrate_expected_shape [of v] by (simp add: fromJSON_def)
next
  fix e assume t: "fromJSON parse jsonData = Throws e"
  show "(parse jsonData = None \<and> e = SyntaxError) \<or>
        (\<exists>v. parse jsonData = Some v \<and> \<not> expected_shape v \<and> e = TypeError)"
  proof (cases "parse jsonData")
    case None
    then show ?thesis using t by (simp add: fromJSON_def)
  next
    case (Some v)
    then have h: "hydrate v = Throws e" using t by (simp add: fromJSON_def)
    then have "e = TypeError" by (rule hydrate_throws)
    moreover have "\<not> expected_shape v" using hydrate_expected_shape [of v] h by auto
    ultimately show ?thesis using Some by simp
  qed
qed

theorem fromJSON_failures_witness:
  "fromJSON read_compact ''nul'' = Throws SyntaxError \<and>
   (\<exists>c. fromJSON read_compact ''{\"stateSize\":2,\"model\":[]}'' = Returns c) \<and>
   (fromJSON read_compact ''null'' = Throws TypeError \<and> read_compact ''null'' = Some JNull \<and>
    \<not> expected_shape JNull)"
proof -
  have a: "read_compact ''nul'' = None" by code_simp
  have b: "read_compact ''{\"stateSize\":2,\"model\":[]}'' = Some (JObj [(''stateSize'', JNum 2), (''model'', JArr [])])"
    by code_simp
  have b': "expected_shape (JObj [(''stateSize'', JNum 2), (''model'', JArr [])])"
    by code_simp
  have c: "fromJSON read_compact ''null'' = Throws TypeError" by code_simp
  have d: "read_compact ''null'' = Some JNull" by code_simp
  note t1 = fromJSON_failures [of read_compact "''nul''"]
  note t2 = fromJSON_failures [of read_compact "''{\"stateSize\":2,\"model\":[]}''"]
  note t3 = fromJSON_failures [of read_compact "''null''"]
  have 1: "fromJSON read_compact ''nul'' = Throws SyntaxError"
    using t1 a by simp
  have 2: "\<exists>c. fromJSON read_compact ''{\"stateSize\":2,\"model\":[]}'' = Returns c"
    using t2 b b' by simp
  have 3: "\<not> expected_shape JNull"
    using t3 c d by auto
  show ?thesis using 1 2 3 c d by simp
qed


end
